theory Spec2Isabelle
  imports Main "HOL-Library.Product_Lexorder"
begin

section \<open>Python values and exceptions\<close>

text \<open>
  Nodes and weights are Python integers. A weighted edge is the tuple \<open>(w, u, v)\<close>.
  The members of the fixed and restricted edge sets are Python tuples of any length,
  modelled as integer lists, so that the membership tests of the source compare tuples
  of different lengths exactly as Python does.
\<close>

type_synonym node = int
type_synonym wedge = "int \<times> node \<times> node"
type_synonym pytuple = "int list"

datatype error =
    ValueError string
  | NetworkXPointlessConcept
  | NetworkXError
  | KeyError
  | TypeError
  | IndexError

definition ebind :: "error + 'a \<Rightarrow> ('a \<Rightarrow> error + 'b) \<Rightarrow> error + 'b" where
  "ebind m f = (case m of Inl e \<Rightarrow> Inl e | Inr x \<Rightarrow> f x)"

fun emap :: "('a \<Rightarrow> error + 'b) \<Rightarrow> 'a list \<Rightarrow> error + 'b list" where
  "emap f [] = Inr []"
| "emap f (x # xs) = ebind (f x) (\<lambda>y. ebind (emap f xs) (\<lambda>ys. Inr (y # ys)))"

fun efold :: "('a \<Rightarrow> 's \<Rightarrow> error + 's) \<Rightarrow> 'a list \<Rightarrow> 's \<Rightarrow> error + 's" where
  "efold f [] s = Inr s"
| "efold f (x # xs) s = ebind (f x s) (efold f xs)"

text \<open>A Python dict is an association list in insertion order; \<open>d[k]\<close> raises KeyError.\<close>

definition dict_get :: "('k \<times> 'v) list \<Rightarrow> 'k \<Rightarrow> error + 'v" where
  "dict_get d k = (case map_of d k of None \<Rightarrow> Inl KeyError | Some v \<Rightarrow> Inr v)"

fun dict_set :: "('k \<times> 'v) list \<Rightarrow> 'k \<Rightarrow> 'v \<Rightarrow> ('k \<times> 'v) list" where
  "dict_set [] k v = [(k, v)]"
| "dict_set ((k', v') # d) k v = (if k' = k then (k, v) # d else (k', v') # dict_set d k v)"

definition tuple2 :: "node \<times> node \<Rightarrow> pytuple" where
  "tuple2 e = [fst e, snd e]"

definition tuple3 :: "wedge \<Rightarrow> pytuple" where
  "tuple3 e = [fst e, fst (snd e), snd (snd e)]"

section \<open>The networkx graph interface used by the program\<close>

text \<open>
  A networkx graph is its adjacency dict: every node is mapped to the dict of its
  neighbours, and every neighbour to the edge attributes, of which the program reads
  only \<open>'weight'\<close> (absent: \<open>None\<close>). A \<open>DiGraph\<close> has the same shape, the inner dict
  holding the successors. Both dicts keep insertion order.
\<close>

type_synonym nxgraph = "(node \<times> (node \<times> int option) list) list"

definition nx_nodes :: "nxgraph \<Rightarrow> node list" where
  "nx_nodes G = map fst G"

definition adj :: "nxgraph \<Rightarrow> node \<Rightarrow> (node \<times> int option) list" where
  "adj G n = (case map_of G n of None \<Rightarrow> [] | Some l \<Rightarrow> l)"

definition succs :: "nxgraph \<Rightarrow> node \<Rightarrow> node list" where
  "succs G n = map fst (adj G n)"

text \<open>\<open>nx.neighbors(G, n)\<close>: the neighbours (successors) of \<open>n\<close>; raises for an unknown node.\<close>

definition nx_neighbors :: "nxgraph \<Rightarrow> node \<Rightarrow> error + node list" where
  "nx_neighbors G n = (case map_of G n of None \<Rightarrow> Inl NetworkXError | Some l \<Rightarrow> Inr (map fst l))"

text \<open>
  \<open>(u, v) in G.edges\<close> for an undirected graph: \<open>v in adj[u] or u in adj[v]\<close>, a missing
  key giving \<open>False\<close>.
\<close>

definition nx_in_edges :: "nxgraph \<Rightarrow> node \<times> node \<Rightarrow> bool" where
  "nx_in_edges G e =
     (case map_of G (fst e) of
        None \<Rightarrow> False
      | Some l \<Rightarrow> snd e \<in> set (map fst l) \<or>
          (case map_of G (snd e) of None \<Rightarrow> False | Some l' \<Rightarrow> fst e \<in> set (map fst l')))"

text \<open>Iterating \<open>G.edges()\<close> of an undirected graph reports every edge once.\<close>

fun edges_from :: "node list \<Rightarrow> nxgraph \<Rightarrow> (node \<times> node) list" where
  "edges_from seen [] = []"
| "edges_from seen ((n, nbrs) # G) =
     map (\<lambda>nbr. (n, nbr)) (filter (\<lambda>nbr. nbr \<notin> set seen) (map fst nbrs)) @ edges_from (n # seen) G"

definition nx_edges :: "nxgraph \<Rightarrow> (node \<times> node) list" where
  "nx_edges G = edges_from [] G"

text \<open>Iterating the edges of a \<open>DiGraph\<close> reports every successor pair.\<close>

definition nx_out_edges :: "nxgraph \<Rightarrow> (node \<times> node) list" where
  "nx_out_edges D = concat (map (\<lambda>(n, nbrs). map (\<lambda>nbr. (n, fst nbr)) nbrs) D)"

text \<open>\<open>G.number_of_edges()\<close>: half the degree sum, a self-loop counting twice.\<close>

definition nx_number_of_edges :: "nxgraph \<Rightarrow> int" where
  "nx_number_of_edges G =
     (\<Sum>(n, nbrs) \<leftarrow> G. int (length nbrs) + (if n \<in> set (map fst nbrs) then 1 else 0)) div 2"

text \<open>
  \<open>G.get_edge_data(u, v)['weight']\<close>: \<open>get_edge_data\<close> returns \<open>None\<close> when there is no
  such edge, and subscripting \<open>None\<close> raises TypeError; an edge without the attribute
  raises KeyError.
\<close>

definition edge_weight :: "nxgraph \<Rightarrow> node \<Rightarrow> node \<Rightarrow> error + int" where
  "edge_weight G u v =
     (case map_of G u of
        None \<Rightarrow> Inl TypeError
      | Some l \<Rightarrow> (case map_of l v of
           None \<Rightarrow> Inl TypeError
         | Some None \<Rightarrow> Inl KeyError
         | Some (Some w) \<Rightarrow> Inr w))"

definition nx_to_directed :: "nxgraph \<Rightarrow> nxgraph" where
  "nx_to_directed G = G"

text \<open>\<open>D.remove_edges_from(es)\<close>: absent edges are ignored.\<close>

definition remove_edge :: "node \<times> node \<Rightarrow> nxgraph \<Rightarrow> nxgraph" where
  "remove_edge e D = map (\<lambda>(n, nbrs). (n, if n = fst e then filter (\<lambda>x. fst x \<noteq> snd e) nbrs else nbrs)) D"

definition nx_remove_edges_from :: "nxgraph \<Rightarrow> (node \<times> node) list \<Rightarrow> nxgraph" where
  "nx_remove_edges_from D es = fold remove_edge es D"

subsection \<open>Depth-first search\<close>

text \<open>
  \<open>nx.dfs_postorder_nodes(G, source)\<close> is a depth-first search that follows the
  neighbours of a node in adjacency order and reports a node once all of its unvisited
  neighbours are finished. \<open>dfs_children G cs (visited, out)\<close> handles the remaining
  children \<open>cs\<close> of one node.
\<close>

definition universe :: "nxgraph \<Rightarrow> node set" where
  "universe G = (\<Union>(n, l) \<in> set G. set (map fst l))"

function dfs_children :: "nxgraph \<Rightarrow> node list \<Rightarrow> node list \<times> node list \<Rightarrow> node list \<times> node list" where
  "dfs_children G [] s = s"
| "dfs_children G (c # cs) (vis, out) =
     (if c \<in> set vis then dfs_children G cs (vis, out)
      else (case dfs_children G (succs G c) (c # vis, out) of
              (vis', out') \<Rightarrow> dfs_children G cs (vis', out' @ [c])))"
  by pat_completeness auto

lemma succs_universe: "set (succs G c) \<subseteq> universe G"
proof
  fix x assume "x \<in> set (succs G c)"
  then obtain l where l: "map_of G c = Some l" "x \<in> fst ` set l"
    by (cases "map_of G c") (auto simp: succs_def adj_def)
  from l(1) have "(c, l) \<in> set G" by (rule map_of_SomeD)
  with l(2) show "x \<in> universe G" unfolding universe_def by force
qed

lemma finite_universe: "finite (universe G)"
  by (auto simp: universe_def)

lemma dfs_children_mono_dom:
  "dfs_children_dom (G, cs, s) \<Longrightarrow> set (fst s) \<subseteq> set (fst (dfs_children G cs s))"
proof (induction G cs s rule: dfs_children.pinduct)
  case (1 G s)
  then show ?case by (simp add: dfs_children.psimps)
next
  case (2 G c cs vis out)
  show ?case
  proof (cases "c \<in> set vis")
    case True
    with 2 show ?thesis by (auto simp: dfs_children.psimps)
  next
    case False
    obtain v' o' where r: "dfs_children G (succs G c) (c # vis, out) = (v', o')"
      by (cases "dfs_children G (succs G c) (c # vis, out)")
    from 2(3)[OF False] r have a: "set (c # vis) \<subseteq> set v'" by auto
    from 2(4)[OF False r[symmetric]]
    have b: "set v' \<subseteq> set (fst (dfs_children G cs (v', o' @ [c])))" by auto
    have e: "dfs_children G (c # cs) (vis, out) = dfs_children G cs (v', o' @ [c])"
      using 2(1) False r by (simp add: dfs_children.psimps)
    show ?thesis using a b unfolding e by auto
  qed
qed

termination dfs_children
proof (relation "inv_image (less_than <*lex*> less_than)
        (\<lambda>(G, cs, s). (card ((universe G \<union> set cs) - set (fst s)), length cs))", goal_cases)
  case 1
  show ?case by auto
next
  case (2 G c cs vis out)
  have "card ((universe G \<union> set cs) - set vis) \<le> card ((universe G \<union> set (c # cs)) - set vis)"
    by (intro card_mono) (auto simp: finite_universe)
  then show ?case by auto
next
  case (3 G c cs vis out)
  have "(universe G \<union> set (succs G c)) - set (c # vis) \<subset> (universe G \<union> set (c # cs)) - set vis"
    using 3 succs_universe[of G c] by auto
  then have "card ((universe G \<union> set (succs G c)) - set (c # vis))
             < card ((universe G \<union> set (c # cs)) - set vis)"
    by (intro psubset_card_mono) (auto simp: finite_universe)
  then show ?case by auto
next
  case (4 G c cs vis out x y)
  from dfs_children_mono_dom[OF 4(3)] 4(2) have "set (c # vis) \<subseteq> set x"
    by (metis fst_conv)
  then have "(universe G \<union> set cs) - set x \<subseteq> (universe G \<union> set (c # cs)) - set vis" by auto
  then have "card ((universe G \<union> set cs) - set x) \<le> card ((universe G \<union> set (c # cs)) - set vis)"
    by (intro card_mono) (auto simp: finite_universe)
  then show ?case by auto
qed

text \<open>Starting the search at a node that the graph does not have raises KeyError.\<close>

definition nx_dfs_postorder_nodes :: "nxgraph \<Rightarrow> node \<Rightarrow> error + node list" where
  "nx_dfs_postorder_nodes G source =
     (case map_of G source of
        None \<Rightarrow> Inl KeyError
      | Some l \<Rightarrow> Inr (snd (dfs_children G [source] ([], []))))"

text \<open>The nodes that a search from \<open>source\<close> reaches, \<open>source\<close> included.\<close>

definition reach :: "nxgraph \<Rightarrow> node \<Rightarrow> node list" where
  "reach G source = snd (dfs_children G [source] ([], []))"

text \<open>\<open>nx.descendants(G, source)\<close>: the nodes reachable from \<open>source\<close>, without \<open>source\<close>.\<close>

definition nx_descendants :: "nxgraph \<Rightarrow> node \<Rightarrow> error + node list" where
  "nx_descendants G source =
     (case map_of G source of
        None \<Rightarrow> Inl NetworkXError
      | Some l \<Rightarrow> Inr (filter (\<lambda>n. n \<noteq> source) (reach G source)))"

text \<open>
  \<open>nx.is_connected(G)\<close> counts the nodes reached from the first node; the null graph
  raises. \<open>nx.is_tree(G)\<close>: a connected graph with one edge less than it has nodes.
\<close>

definition nx_is_connected :: "nxgraph \<Rightarrow> error + bool" where
  "nx_is_connected G =
     (case G of
        [] \<Rightarrow> Inl NetworkXPointlessConcept
      | (n, l) # G' \<Rightarrow> Inr (length (reach G n) = length G))"

definition nx_is_tree :: "nxgraph \<Rightarrow> error + bool" where
  "nx_is_tree G =
     (if length G = 0 then Inl NetworkXPointlessConcept
      else if int (length G) - 1 = nx_number_of_edges G then nx_is_connected G
      else Inr False)"

section \<open>Input validation\<close>

definition is_weighted :: "nxgraph \<Rightarrow> bool" where
  "is_weighted G = (\<forall>edge \<in> set (nx_edges G). edge_weight G (fst edge) (snd edge) \<noteq> Inl KeyError)"

definition has_self_cycles :: "nxgraph \<Rightarrow> bool" where
  "has_self_cycles G = (\<exists>n \<in> set (nx_nodes G). nx_in_edges G (n, n))"

definition check_input_graph :: "nxgraph \<Rightarrow> error + unit" where
  "check_input_graph G =
     ebind (nx_is_connected G) (\<lambda>conn.
       if \<not> conn then Inl (ValueError ''Input graph must be a connected.'')
       else if has_self_cycles G then Inl (ValueError ''Input graph must have no self-cycles.'')
       else if \<not> is_weighted G then Inl (ValueError ''Input graph must have weighted edges.'')
       else Inr ())"

definition is_tree_of_graph :: "nxgraph \<Rightarrow> nxgraph \<Rightarrow> error + bool" where
  "is_tree_of_graph child parent =
     (if \<exists>child_edge \<in> set (nx_edges child). \<not> nx_in_edges parent child_edge then Inr False
      else nx_is_tree child)"

definition check_input_tree :: "nxgraph \<Rightarrow> nxgraph \<Rightarrow> error + unit" where
  "check_input_tree tree parent_graph =
     ebind (check_input_graph tree) (\<lambda>_.
       ebind (is_tree_of_graph tree parent_graph) (\<lambda>ok.
         if \<not> ok then Inl (ValueError ''Input tree is not a spanning tree.'') else Inr ()))"

section \<open>The class Substitute\<close>

text \<open>
  The attributes of an instance. The last four are created by \<open>substitute()\<close>; before
  the first call they are modelled as empty.
\<close>

record substitute_obj =
  graph :: nxgraph
  tree :: nxgraph
  fixed_edges :: "pytuple set"
  restricted_edges :: "pytuple set"
  ordered :: bool
  directed :: nxgraph
  postorder_nodes :: "(node \<times> nat) list"
  descendants :: "(node \<times> nat list) list"
  quasi_cuts :: "wedge list"

text \<open>\<open>Substitute.__init__\<close>: an exception of either check leaves no instance behind.\<close>

definition construct ::
  "nxgraph \<Rightarrow> nxgraph \<Rightarrow> pytuple set \<Rightarrow> pytuple set \<Rightarrow> bool \<Rightarrow> error + substitute_obj" where
  "construct g t fixed restricted ord =
     ebind (check_input_graph g) (\<lambda>_.
       ebind (check_input_tree t g) (\<lambda>_.
         Inr \<lparr>graph = g, tree = t, fixed_edges = fixed, restricted_edges = restricted,
              ordered = ord, directed = [], postorder_nodes = [], descendants = [],
              quasi_cuts = []\<rparr>))"

subsection \<open>The quasi-cut set\<close>

text \<open>
  \<open>SortedSet(key=lambda x: (x[0], x[1], x[2]))\<close>: a set of triples iterated in ascending
  order of the triple, kept here as a sorted list without repetition.
\<close>

definition qc_add :: "wedge \<Rightarrow> wedge list \<Rightarrow> wedge list" where
  "qc_add e Q = (if e \<in> set Q then Q else insort e Q)"

definition qc_remove :: "wedge \<Rightarrow> wedge list \<Rightarrow> wedge list" where
  "qc_remove e Q = remove1 e Q"

subsection \<open>Postordering\<close>

text \<open>
  \<open>random_node\<close>: \<open>r_idx\<close> stands for the value that \<open>random.randint(0, high=n)\<close>
  returns, which lies below \<open>n\<close>; with no node to choose from numpy raises ValueError.
\<close>

definition random_node :: "nat \<Rightarrow> substitute_obj \<Rightarrow> error + node" where
  "random_node r_idx s =
     (let ns = nx_nodes (graph s) in
      if length ns = 0 then Inl (ValueError ''low >= high'')
      else if r_idx < length ns then Inr (ns ! r_idx)
      else Inl IndexError)"

text \<open>
  The first loop of \<open>postorder_tree\<close>: node number \<open>i\<close> gets postorder position \<open>i + 1\<close>,
  then its edges to neighbours without a position are removed from \<open>self.directed\<close>.
\<close>

fun prune_loop ::
  "node list \<Rightarrow> nat \<Rightarrow> (node \<times> nat) list \<Rightarrow> nxgraph \<Rightarrow> error + ((node \<times> nat) list \<times> nxgraph)" where
  "prune_loop [] i po D = Inr (po, D)"
| "prune_loop (n # ns) i po D =
     (let po' = dict_set po n (i + 1) in
      ebind (nx_neighbors D n) (\<lambda>nbrs.
        let parent_nodes = map (\<lambda>neighbor. (n, neighbor))
                             (filter (\<lambda>neighbor. map_of po' neighbor = None) nbrs)
        in prune_loop ns (i + 1) po' (nx_remove_edges_from D parent_nodes)))"

text \<open>The second loop: the sorted positions of a node and of its descendants.\<close>

definition descendants_of :: "(node \<times> nat) list \<Rightarrow> nxgraph \<Rightarrow> node \<Rightarrow> error + nat list" where
  "descendants_of po D each =
     ebind (dict_get po each) (\<lambda>r.
       ebind (nx_descendants D each) (\<lambda>children.
         ebind (emap (dict_get po) children) (\<lambda>rs. Inr (sort (r # rs)))))"

definition postorder_tree ::
  "nat \<Rightarrow> substitute_obj \<Rightarrow> error + (((node \<times> nat) list \<times> (node \<times> nat list) list) \<times> substitute_obj)" where
  "postorder_tree r_idx s =
     ebind (if \<not> ordered s
            then ebind (random_node r_idx s) (nx_dfs_postorder_nodes (directed s))
            else Inr (nx_nodes (tree s))) (\<lambda>nodes.
       ebind (prune_loop nodes 0 [] (directed s)) (\<lambda>(po, D).
         ebind (emap (\<lambda>each. ebind (descendants_of po D each) (\<lambda>ds. Inr (each, ds))) (map fst po))
           (\<lambda>de. Inr ((po, de), s\<lparr>directed := D\<rparr>))))"

definition instantiate_substitute_variables :: "nat \<Rightarrow> substitute_obj \<Rightarrow> error + substitute_obj" where
  "instantiate_substitute_variables r_idx s =
     (let s1 = s\<lparr>directed := nx_to_directed (tree s)\<rparr> in
      ebind (postorder_tree r_idx s1) (\<lambda>((po, de), s2).
        Inr (s2\<lparr>postorder_nodes := po, descendants := de, quasi_cuts := []\<rparr>)))"

subsection \<open>Candidate edges\<close>

fun incident_from :: "substitute_obj \<Rightarrow> node \<Rightarrow> node list \<Rightarrow> error + wedge list" where
  "incident_from s node [] = Inr []"
| "incident_from s node (neighbor # nbrs) =
     (if tuple2 (node, neighbor) \<notin> restricted_edges s \<and> \<not> nx_in_edges (tree s) (node, neighbor)
      then ebind (edge_weight (graph s) node neighbor) (\<lambda>w.
             ebind (incident_from s node nbrs) (\<lambda>rest. Inr ((w, node, neighbor) # rest)))
      else incident_from s node nbrs)"

text \<open>
  The source collects the candidates in a Python set; they are listed here in the
  order of the neighbours, each neighbour giving at most one candidate.
\<close>

definition find_incident_edges :: "substitute_obj \<Rightarrow> node \<Rightarrow> error + wedge list" where
  "find_incident_edges s node = ebind (nx_neighbors (graph s) node) (incident_from s node)"

definition postordered_edges :: "substitute_obj \<Rightarrow> error + wedge list" where
  "postordered_edges s =
     ebind (emap (\<lambda>(u, v). ebind (edge_weight (graph s) u v) (\<lambda>w. Inr (w, v, u)))
              (nx_out_edges (directed s))) (\<lambda>edges.
       ebind (emap (\<lambda>x. ebind (dict_get (postorder_nodes s) (fst (snd x))) (\<lambda>a.
                           ebind (dict_get (postorder_nodes s) (snd (snd x))) (\<lambda>b.
                             Inr ((a, b), x)))) edges) (\<lambda>keyed.
         Inr (map snd (sort_key fst keyed))))"

subsection \<open>The search in the quasi-cut set\<close>

fun scan_cuts :: "substitute_obj \<Rightarrow> int \<Rightarrow> node \<Rightarrow> wedge list \<Rightarrow> error + wedge option" where
  "scan_cuts s weight node [] = Inr None"
| "scan_cuts s weight node (cut_edge # rest) =
     ebind (dict_get (postorder_nodes s) (fst (snd cut_edge))) (\<lambda>r.
       ebind (dict_get (descendants s) node) (\<lambda>ds.
         if r \<in> set ds \<and> fst cut_edge = weight then Inr (Some cut_edge)
         else scan_cuts s weight node rest))"

definition equal_weight_descendant :: "substitute_obj \<Rightarrow> wedge \<Rightarrow> error + wedge option" where
  "equal_weight_descendant s weighted_edge =
     scan_cuts s (fst weighted_edge) (fst (snd weighted_edge)) (quasi_cuts s)"

lemma scan_cuts_member: "scan_cuts s weight node Q = Inr (Some c) \<Longrightarrow> c \<in> set Q"
  by (induction Q) (auto simp: ebind_def split: sum.splits if_splits)

text \<open>
  Steps 2.2.a to 2.2.c, the \<open>while\<close> loop of \<open>substitute\<close>: the result is the edge that
  step 2.2.c appends, if any, and the instance with the quasi-cut set as the loop
  leaves it.
\<close>

function search_loop :: "substitute_obj \<Rightarrow> wedge \<Rightarrow> error + (wedge option \<times> substitute_obj)" where
  "search_loop s n_edge =
     (case equal_weight_descendant s n_edge of
        Inl e \<Rightarrow> Inl e
      | Inr None \<Rightarrow> Inr (None, s)
      | Inr (Some cut_edge) \<Rightarrow>
          (case dict_get (postorder_nodes s) (snd (snd cut_edge)) of
             Inl e \<Rightarrow> Inl e
           | Inr r \<Rightarrow>
               (case dict_get (descendants s) (fst (snd n_edge)) of
                  Inl e \<Rightarrow> Inl e
                | Inr ds \<Rightarrow>
                    if r \<in> set ds
                    then search_loop (s\<lparr>quasi_cuts := qc_remove cut_edge (quasi_cuts s)\<rparr>) n_edge
                    else Inr (Some cut_edge, s))))"
  by pat_completeness auto
termination
proof (relation "measure (\<lambda>(s, n_edge). length (quasi_cuts s))", goal_cases)
  case 1
  show ?case by simp
next
  case (2 s n_edge found cut_edge r ds)
  then have "cut_edge \<in> set (quasi_cuts s)"
    by (auto simp: equal_weight_descendant_def dest: scan_cuts_member)
  then have "length (remove1 cut_edge (quasi_cuts s)) < length (quasi_cuts s)"
    using length_pos_if_in_set[of cut_edge "quasi_cuts s"] by (simp add: length_remove1)
  then show ?case
    by (simp add: qc_remove_def)
qed

declare search_loop.simps [simp del]

subsection \<open>The substitution loop\<close>

text \<open>Step 2.1 for one incident edge: three independent tests, in the order of the source.\<close>

definition step_2_1 :: "wedge \<Rightarrow> substitute_obj \<Rightarrow> error + substitute_obj" where
  "step_2_1 i_edge s =
     (let reversed_edge = (fst i_edge, snd (snd i_edge), fst (snd i_edge)) in
      ebind (dict_get (postorder_nodes s) (snd (snd i_edge))) (\<lambda>r.
        ebind (dict_get (descendants s) (fst (snd i_edge))) (\<lambda>ds.
          if ds = [] then Inl IndexError
          else
            let sa = (if r < hd ds
                      then (let s' = (if reversed_edge \<in> set (quasi_cuts s)
                                      then s\<lparr>quasi_cuts := qc_remove reversed_edge (quasi_cuts s)\<rparr>
                                      else s)
                            in s'\<lparr>quasi_cuts := qc_add i_edge (quasi_cuts s')\<rparr>)
                      else s);
                sb = (if r \<in> set ds
                      then (if reversed_edge \<in> set (quasi_cuts sa)
                            then sa\<lparr>quasi_cuts := qc_remove reversed_edge (quasi_cuts sa)\<rparr>
                            else sa)
                      else sa);
                sc = (if r > last ds
                      then sb\<lparr>quasi_cuts := qc_add i_edge (quasi_cuts sb)\<rparr>
                      else sb)
            in Inr sc)))"

type_synonym substitute_dict = "((node \<times> node) \<times> (node \<times> node) list) list"

definition dict_append :: "substitute_dict \<Rightarrow> node \<times> node \<Rightarrow> node \<times> node \<Rightarrow> substitute_dict" where
  "dict_append d k v = map (\<lambda>(k', vs). if k' = k then (k', vs @ [v]) else (k', vs)) d"

text \<open>The body of the loop of step 2 for one tree edge \<open>n_edge = (w, node, parent)\<close>.\<close>

fun process_edge ::
  "wedge \<Rightarrow> substitute_obj \<times> substitute_dict \<Rightarrow> error + (substitute_obj \<times> substitute_dict)" where
  "process_edge n_edge (s, d) =
     (let node = fst (snd n_edge) in
      ebind (find_incident_edges s node) (\<lambda>incident_edges.
        ebind (efold step_2_1 incident_edges s) (\<lambda>s1.
          if tuple3 n_edge \<notin> fixed_edges s1
          then ebind (search_loop s1 n_edge) (\<lambda>(found, s2).
                 case found of
                   None \<Rightarrow> Inr (s2, d)
                 | Some cut_edge \<Rightarrow> Inr (s2, dict_append d (snd n_edge) (snd cut_edge)))
          else Inr (s1, d))))"

text \<open>
  \<open>substitute()\<close>: the returned dict together with the instance after the call.
\<close>

definition substitute :: "nat \<Rightarrow> substitute_obj \<Rightarrow> error + (substitute_dict \<times> substitute_obj)" where
  "substitute r_idx s =
     ebind (instantiate_substitute_variables r_idx s) (\<lambda>s1.
       ebind (postordered_edges s1) (\<lambda>ordered_edges.
         let substitute_dict = fold (\<lambda>e d. dict_set d (snd e) []) ordered_edges [] in
         ebind (efold process_edge ordered_edges (s1, substitute_dict)) (\<lambda>(s2, d).
           Inr (d, s2))))"

text \<open>\<open>Substitute(g, t, fixed, restricted, ord).substitute()\<close>: construction, then one call.\<close>

definition run_substitute ::
  "nxgraph \<Rightarrow> nxgraph \<Rightarrow> pytuple set \<Rightarrow> pytuple set \<Rightarrow> bool \<Rightarrow> nat \<Rightarrow> error + substitute_dict" where
  "run_substitute g t fixed restricted ord r_idx =
     ebind (construct g t fixed restricted ord) (\<lambda>s.
       ebind (substitute r_idx s) (\<lambda>(d, s'). Inr d))"

section \<open>Example inputs\<close>

text \<open>
  The scenario of the specification: the path 1-2-3-4 with the extra edge 1-4, every
  weight 1, the path being the tree. Root index \<open>i\<close> selects the node \<open>i + 1\<close>.
\<close>

definition path4_graph :: nxgraph where
  "path4_graph =
     [(1, [(2, Some 1), (4, Some 1)]), (2, [(1, Some 1), (3, Some 1)]),
      (3, [(2, Some 1), (4, Some 1)]), (4, [(3, Some 1), (1, Some 1)])]"

definition path4_tree :: nxgraph where
  "path4_tree =
     [(1, [(2, Some 1)]), (2, [(1, Some 1), (3, Some 1)]),
      (3, [(2, Some 1), (4, Some 1)]), (4, [(3, Some 1)])]"

definition path4_obj :: substitute_obj where
  "path4_obj =
     \<lparr>graph = path4_graph, tree = path4_tree, fixed_edges = {}, restricted_edges = {},
      ordered = False, directed = [], postorder_nodes = [], descendants = [],
      quasi_cuts = []\<rparr>"

text \<open>The instance after \<open>instantiate_substitute_variables\<close> with root node 1.\<close>

definition path4_ready :: substitute_obj where
  "path4_ready =
     \<lparr>graph = path4_graph, tree = path4_tree, fixed_edges = {}, restricted_edges = {},
      ordered = False,
      directed = [(1, [(2, Some 1)]), (2, [(3, Some 1)]), (3, [(4, Some 1)]), (4, [])],
      postorder_nodes = [(4, 1), (3, 2), (2, 3), (1, 4)],
      descendants = [(4, [1]), (3, [1, 2]), (2, [1, 2, 3]), (1, [1, 2, 3, 4])],
      quasi_cuts = []\<rparr>"

definition two_node_graph :: nxgraph where
  "two_node_graph = [(1, [(2, Some 1)]), (2, [(1, Some 1)])]"

definition one_node_tree :: nxgraph where
  "one_node_tree = [(1, [])]"

definition stray_tree :: nxgraph where
  "stray_tree = [(1, [(3, Some 1)]), (3, [(1, Some 1)])]"

text \<open>The search as the specification words it: the test is on the target of the entry.\<close>

definition spec_find_first_matching :: "substitute_obj \<Rightarrow> int \<Rightarrow> node \<Rightarrow> wedge option" where
  "spec_find_first_matching s weight node =
     find (\<lambda>c. (case map_of (postorder_nodes s) (snd (snd c)) of
                  None \<Rightarrow> False
                | Some r \<Rightarrow> (case map_of (descendants s) node of
                     None \<Rightarrow> False
                   | Some ds \<Rightarrow> r \<in> set ds)) \<and> fst c = weight)
          (sort (quasi_cuts s))"

section \<open>Notions for the general results\<close>

text \<open>
  The invariants of a networkx \<open>Graph\<close>: no node and no neighbour is listed twice, and
  every adjacency entry has its mirror image with the same attribute.
\<close>

definition wf_graph :: "nxgraph \<Rightarrow> bool" where
  "wf_graph G \<longleftrightarrow>
     distinct (map fst G) \<and>
     (\<forall>(n, l) \<in> set G. distinct (map fst l) \<and> (\<forall>(m, w) \<in> set l. map_of (adj G m) n = Some w))"

text \<open>A valid pair of inputs: both are such graphs, and the tree touches every node.\<close>

definition valid_input :: "nxgraph \<Rightarrow> nxgraph \<Rightarrow> bool" where
  "valid_input g t \<longleftrightarrow> wf_graph g \<and> wf_graph t \<and> set (nx_nodes t) = set (nx_nodes g)"

definition symmetric_graph :: "nxgraph \<Rightarrow> bool" where
  "symmetric_graph G \<longleftrightarrow> (\<forall>x y. y \<in> set (succs G x) \<longrightarrow> x \<in> set (succs G y))"

definition edge_rel :: "nxgraph \<Rightarrow> (node \<times> node) set" where
  "edge_rel G = {(x, y). y \<in> set (succs G x)}"

text \<open>
  For a postorder \<open>po\<close>: the nodes positioned no later than \<open>a\<close>; the edges that the
  first loop of \<open>postorder_tree\<close> keeps; the graph it leaves; the positions it assigns.
\<close>

definition upto_node :: "node list \<Rightarrow> node \<Rightarrow> node set" where
  "upto_node po a = insert a (set (takeWhile (\<lambda>x. x \<noteq> a) po))"

definition kept_rel :: "node list \<Rightarrow> nxgraph \<Rightarrow> (node \<times> node) set" where
  "kept_rel po G = {(a, b). b \<in> set (succs G a) \<and> b \<in> upto_node po a}"

definition pruned :: "node list \<Rightarrow> nxgraph \<Rightarrow> nxgraph" where
  "pruned po D = map (\<lambda>(n, nbrs). (n, if n \<in> set po then filter (\<lambda>x. fst x \<in> upto_node po n) nbrs else nbrs)) D"

definition ranks :: "node list \<Rightarrow> (node \<times> nat) list" where
  "ranks po = zip po [Suc 0 ..< Suc (length po)]"

definition rank_of :: "node list \<Rightarrow> node \<Rightarrow> nat" where
  "rank_of po y = (case map_of (ranks po) y of None \<Rightarrow> 0 | Some r \<Rightarrow> r)"

section \<open>Auxiliary facts\<close>

lemma ebind_Inr_iff: "ebind m f = Inr y \<longleftrightarrow> (\<exists>x. m = Inr x \<and> f x = Inr y)"
  by (cases m) (auto simp: ebind_def)

lemma quasi_cuts_update_self: "\<exists>Q. s = s\<lparr>quasi_cuts := Q\<rparr>"
  by (rule exI[of _ "quasi_cuts s"]) simp

lemma step_2_1_frame: "step_2_1 e s = Inr s' \<Longrightarrow> s' = s\<lparr>quasi_cuts := quasi_cuts s'\<rparr>"
proof -
  assume a: "step_2_1 e s = Inr s'"
  from a have "\<exists>Q. s' = s\<lparr>quasi_cuts := Q\<rparr>"
    unfolding step_2_1_def Let_def ebind_Inr_iff
    by (elim exE conjE) (auto split: if_splits intro: quasi_cuts_update_self)
  then show ?thesis by auto
qed

lemma efold_step_2_1_frame:
  "efold step_2_1 es s = Inr s' \<Longrightarrow> s' = s\<lparr>quasi_cuts := quasi_cuts s'\<rparr>"
proof (induction es arbitrary: s)
  case Nil
  then show ?case by simp
next
  case (Cons e es)
  from Cons.prems obtain s1 where a: "step_2_1 e s = Inr s1" and b: "efold step_2_1 es s1 = Inr s'"
    by (auto simp: ebind_Inr_iff)
  from step_2_1_frame[OF a] Cons.IH[OF b] show ?case
    by (metis substitute_obj.update_convs(9) substitute_obj.surjective)
qed


lemma search_loop_frame:
  "search_loop s n_edge = Inr (found, s') \<Longrightarrow> s' = s\<lparr>quasi_cuts := quasi_cuts s'\<rparr>"
proof (induction s n_edge rule: search_loop.induct)
  case (1 s n_edge)
  show ?case
  proof (cases "equal_weight_descendant s n_edge")
    case (Inl e)
    with 1(2) show ?thesis by (simp add: search_loop.simps[of s n_edge])
  next
    case (Inr r)
    show ?thesis
    proof (cases r)
      case None
      with Inr 1(2) show ?thesis by (auto simp: search_loop.simps[of s n_edge])
    next
      case (Some c)
      from 1(2) Inr Some obtain rk ds where
        rk: "dict_get (postorder_nodes s) (snd (snd c)) = Inr rk" and
        ds: "dict_get (descendants s) (fst (snd n_edge)) = Inr ds" and
        res: "(if rk \<in> set ds
               then search_loop (s\<lparr>quasi_cuts := qc_remove c (quasi_cuts s)\<rparr>) n_edge
               else Inr (Some c, s)) = Inr (found, s')"
        by (auto simp: search_loop.simps[of s n_edge] split: sum.splits)
      show ?thesis
      proof (cases "rk \<in> set ds")
        case True
        with res have "search_loop (s\<lparr>quasi_cuts := qc_remove c (quasi_cuts s)\<rparr>) n_edge = Inr (found, s')"
          by simp
        from 1(1)[OF Inr Some rk ds True this]
        have "s' = s\<lparr>quasi_cuts := qc_remove c (quasi_cuts s)\<rparr>\<lparr>quasi_cuts := quasi_cuts s'\<rparr>" .
        then show ?thesis by simp
      next
        case False
        with res show ?thesis by auto
      qed
    qed
  qed
qed

lemma process_edge_frame:
  assumes "process_edge n_edge (s, d) = Inr (s', d')"
  shows "s' = s\<lparr>quasi_cuts := quasi_cuts s'\<rparr>"
proof -
  from assms obtain inc s1 where
    s1: "efold step_2_1 inc s = Inr s1" and
    r: "(if tuple3 n_edge \<notin> fixed_edges s1
         then ebind (search_loop s1 n_edge) (\<lambda>(found, s2).
                case found of None \<Rightarrow> Inr (s2, d)
                | Some cut_edge \<Rightarrow> Inr (s2, dict_append d (snd n_edge) (snd cut_edge)))
         else Inr (s1, d)) = Inr (s', d')"
    by (auto simp: Let_def ebind_Inr_iff)
  have a: "s1 = s\<lparr>quasi_cuts := quasi_cuts s1\<rparr>" by (rule efold_step_2_1_frame[OF s1])
  show ?thesis
  proof (cases "tuple3 n_edge \<notin> fixed_edges s1")
    case True
    with r obtain found where "search_loop s1 n_edge = Inr (found, s')"
      by (auto simp: ebind_Inr_iff split: option.splits)
    from search_loop_frame[OF this] a show ?thesis
      by (metis substitute_obj.update_convs(9) substitute_obj.surjective)
  next
    case False
    with r a show ?thesis by auto
  qed
qed

lemma efold_process_edge_frame:
  "efold process_edge es (s, d) = Inr (s', d') \<Longrightarrow> s' = s\<lparr>quasi_cuts := quasi_cuts s'\<rparr>"
proof (induction es arbitrary: s d)
  case Nil
  then show ?case by simp
next
  case (Cons e es)
  from Cons.prems obtain s1 d1 where a: "process_edge e (s, d) = Inr (s1, d1)"
    and b: "efold process_edge es (s1, d1) = Inr (s', d')"
    by (auto simp: ebind_Inr_iff)
  from process_edge_frame[OF a] Cons.IH[OF b] show ?case
    by (metis substitute_obj.update_convs(9) substitute_obj.surjective)
qed

lemma postorder_tree_frame:
  "postorder_tree r_idx s = Inr (pd, s') \<Longrightarrow> \<exists>D. s' = s\<lparr>directed := D\<rparr>"
  by (auto simp: postorder_tree_def ebind_Inr_iff split: if_splits)

lemma instantiate_frame:
  assumes "instantiate_substitute_variables r_idx s = Inr s'"
  shows "s' = s\<lparr>directed := directed s', postorder_nodes := postorder_nodes s',
                 descendants := descendants s', quasi_cuts := quasi_cuts s'\<rparr>"
proof -
  from assms obtain po de s2 where
    p: "postorder_tree r_idx (s\<lparr>directed := nx_to_directed (tree s)\<rparr>) = Inr ((po, de), s2)"
    and e: "s' = s2\<lparr>postorder_nodes := po, descendants := de, quasi_cuts := []\<rparr>"
    by (auto simp: instantiate_substitute_variables_def Let_def ebind_Inr_iff)
  from postorder_tree_frame[OF p] obtain D where "s2 = s\<lparr>directed := D\<rparr>" by auto
  with e show ?thesis by simp
qed

lemma substitute_frame:
  assumes "substitute r_idx s = Inr (d, s')"
  shows "s' = s\<lparr>directed := directed s', postorder_nodes := postorder_nodes s',
                 descendants := descendants s', quasi_cuts := quasi_cuts s'\<rparr>"
proof -
  from assms obtain s1 oe d0 where
    i: "instantiate_substitute_variables r_idx s = Inr s1" and
    l: "efold process_edge oe (s1, d0) = Inr (s', d)"
    by (auto simp: substitute_def Let_def ebind_Inr_iff)
  from efold_process_edge_frame[OF l] obtain Q where q: "s' = s1\<lparr>quasi_cuts := Q\<rparr>" by blast
  from instantiate_frame[OF i] obtain D po de Q1 where
    "s1 = s\<lparr>directed := D, postorder_nodes := po, descendants := de, quasi_cuts := Q1\<rparr>" by blast
  with q show ?thesis by simp
qed

section \<open>The path scenario\<close>

text \<open>
  C3, as stated: the extra edge (1,4) is the substitute of exactly one path edge, and
  the path edge (1,2) is mapped to no substitute. The program, rooted at node 1, maps
  every one of the three path edges, (1,2) included, to the extra edge.
\<close>

theorem path4_every_edge_counterexample:
  "run_substitute path4_graph path4_tree {} {} False 0 =
     Inr [((4, 3), [(4, 1)]), ((3, 2), [(4, 1)]), ((2, 1), [(4, 1)])]"
  by code_simp

text \<open>
  C3, amended: for each of the four roots, every path edge (keyed child first) is
  mapped to the extra edge, given from its endpoint inside the subtree of the child.
\<close>

theorem path4_every_edge_substituted:
  "run_substitute path4_graph path4_tree {} {} False 0 =
     Inr [((4, 3), [(4, 1)]), ((3, 2), [(4, 1)]), ((2, 1), [(4, 1)])]
   \<and> run_substitute path4_graph path4_tree {} {} False 1 =
     Inr [((1, 2), [(1, 4)]), ((4, 3), [(4, 1)]), ((3, 2), [(4, 1)])]
   \<and> run_substitute path4_graph path4_tree {} {} False 2 =
     Inr [((1, 2), [(1, 4)]), ((2, 3), [(1, 4)]), ((4, 3), [(4, 1)])]
   \<and> run_substitute path4_graph path4_tree {} {} False 3 =
     Inr [((1, 2), [(1, 4)]), ((2, 3), [(1, 4)]), ((3, 4), [(1, 4)])]"
  by code_simp

text \<open>
  C2: with the tree edge (3,4) fixed, in both orientations, the program rooted at
  node 1 still searches for it and maps it to the substitute (4,1): the test of step 2.2
  looks for the weighted triple \<open>(1, 4, 3)\<close> in the fixed set.
\<close>

theorem fixed_edge_still_substituted:
  "run_substitute path4_graph path4_tree {[3, 4], [4, 3]} {} False 0 =
     Inr [((4, 3), [(4, 1)]), ((3, 2), [(4, 1)]), ((2, 1), [(4, 1)])]"
  by code_simp

text \<open>
  C1: with the edge (1,4) restricted, the program rooted at node 1 returns the same edge
  in its other orientation, (4,1), as the substitute of every path edge.
\<close>

theorem restricted_edge_returned_reversed:
  "run_substitute path4_graph path4_tree {} {[1, 4]} False 0 =
     Inr [((4, 3), [(4, 1)]), ((3, 2), [(4, 1)]), ((2, 1), [(4, 1)])]"
  by code_simp

lemma construct_path4: "construct path4_graph path4_tree {} {} False = Inr path4_obj"
  by code_simp

lemma instantiate_path4: "instantiate_substitute_variables 0 path4_obj = Inr path4_ready"
  by code_simp

section \<open>Frame of a call\<close>

text \<open>
  C10: a call of \<open>substitute()\<close> that returns leaves the graph, the tree, the fixed and
  the restricted edge set (and the flag \<open>ordered\<close>) of the instance as they were; the
  instance after the call differs from the one before only in the attributes
  \<open>directed\<close>, \<open>postorder_nodes\<close>, \<open>descendants\<close> and \<open>quasi_cuts\<close>, which the call
  creates.
\<close>

theorem substitute_leaves_inputs_unchanged:
  assumes "substitute r_idx s = Inr (d, s')"
  shows "graph s' = graph s \<and> tree s' = tree s \<and> fixed_edges s' = fixed_edges s
         \<and> restricted_edges s' = restricted_edges s \<and> ordered s' = ordered s
         \<and> s' = s\<lparr>directed := directed s', postorder_nodes := postorder_nodes s',
                   descendants := descendants s', quasi_cuts := quasi_cuts s'\<rparr>"
proof -
  have e: "s' = s\<lparr>directed := directed s', postorder_nodes := postorder_nodes s',
                   descendants := descendants s', quasi_cuts := quasi_cuts s'\<rparr>"
    by (rule substitute_frame[OF assms])
  have "graph s' = graph s" by (subst e) simp
  moreover have "tree s' = tree s" by (subst e) simp
  moreover have "fixed_edges s' = fixed_edges s" by (subst e) simp
  moreover have "restricted_edges s' = restricted_edges s" by (subst e) simp
  moreover have "ordered s' = ordered s" by (subst e) simp
  ultimately show ?thesis using e by blast
qed

theorem substitute_leaves_inputs_unchanged_witness:
  "substitute 0 path4_obj =
     Inr ([((4, 3), [(4, 1)]), ((3, 2), [(4, 1)]), ((2, 1), [(4, 1)])],
          path4_ready\<lparr>quasi_cuts := [(1, 4, 1)]\<rparr>)
   \<and> graph (path4_ready\<lparr>quasi_cuts := [(1, 4, 1)]\<rparr>) = graph path4_obj
   \<and> tree (path4_ready\<lparr>quasi_cuts := [(1, 4, 1)]\<rparr>) = tree path4_obj
   \<and> fixed_edges (path4_ready\<lparr>quasi_cuts := [(1, 4, 1)]\<rparr>) = fixed_edges path4_obj
   \<and> restricted_edges (path4_ready\<lparr>quasi_cuts := [(1, 4, 1)]\<rparr>) = restricted_edges path4_obj"
proof -
  have h: "substitute 0 path4_obj =
     Inr ([((4, 3), [(4, 1)]), ((3, 2), [(4, 1)]), ((2, 1), [(4, 1)])],
          path4_ready\<lparr>quasi_cuts := [(1, 4, 1)]\<rparr>)"
    by code_simp
  from substitute_leaves_inputs_unchanged[OF h] h show ?thesis by blast
qed

section \<open>Retention of a chosen entry\<close>

lemma search_loop_retains:
  "search_loop s n_edge = Inr (Some c, s') \<Longrightarrow> c \<in> set (quasi_cuts s')"
proof (induction s n_edge rule: search_loop.induct)
  case (1 s n_edge)
  show ?case
  proof (cases "equal_weight_descendant s n_edge")
    case (Inl e)
    with 1(2) show ?thesis by (simp add: search_loop.simps[of s n_edge])
  next
    case (Inr r)
    show ?thesis
    proof (cases r)
      case None
      with Inr 1(2) show ?thesis by (auto simp: search_loop.simps[of s n_edge])
    next
      case (Some ce)
      from 1(2) Inr Some obtain rk ds where
        rk: "dict_get (postorder_nodes s) (snd (snd ce)) = Inr rk" and
        ds: "dict_get (descendants s) (fst (snd n_edge)) = Inr ds" and
        res: "(if rk \<in> set ds
               then search_loop (s\<lparr>quasi_cuts := qc_remove ce (quasi_cuts s)\<rparr>) n_edge
               else Inr (Some ce, s)) = Inr (Some c, s')"
        by (auto simp: search_loop.simps[of s n_edge] split: sum.splits)
      show ?thesis
      proof (cases "rk \<in> set ds")
        case True
        with res have "search_loop (s\<lparr>quasi_cuts := qc_remove ce (quasi_cuts s)\<rparr>) n_edge = Inr (Some c, s')"
          by simp
        from 1(1)[OF Inr Some rk ds True this] show ?thesis .
      next
        case False
        with res have "ce = c" "s' = s" by auto
        moreover from Inr Some have "ce \<in> set (quasi_cuts s)"
          by (auto simp: equal_weight_descendant_def dest: scan_cuts_member)
        ultimately show ?thesis by simp
      qed
    qed
  qed
qed

text \<open>
  C9: when the loop body records a substitute for a tree edge (the dict changes), the
  recorded entry is still in the quasi-cut set after the step; and on the path scenario
  rooted at node 2 the entry \<open>(1, 4, 1)\<close> is returned for the tree edges (4,3) and (3,2).
\<close>

theorem chosen_entry_retained:
  "(process_edge n_edge (s, d) = Inr (s', d') \<longrightarrow> d' \<noteq> d \<longrightarrow>
      (\<exists>c. c \<in> set (quasi_cuts s') \<and> d' = dict_append d (snd n_edge) (snd c)))
   \<and> run_substitute path4_graph path4_tree {} {} False 1 =
       Inr [((1, 2), [(1, 4)]), ((4, 3), [(4, 1)]), ((3, 2), [(4, 1)])]"
proof -
  have a: "\<exists>c. c \<in> set (quasi_cuts s') \<and> d' = dict_append d (snd n_edge) (snd c)"
    if p: "process_edge n_edge (s, d) = Inr (s', d')" and ne: "d' \<noteq> d"
  proof -
    from p obtain inc s1 where
      r: "(if tuple3 n_edge \<notin> fixed_edges s1
           then ebind (search_loop s1 n_edge) (\<lambda>(found, s2).
                  case found of None \<Rightarrow> Inr (s2, d)
                  | Some cut_edge \<Rightarrow> Inr (s2, dict_append d (snd n_edge) (snd cut_edge)))
           else Inr (s1, d)) = Inr (s', d')"
      by (auto simp: Let_def ebind_Inr_iff)
    with ne obtain c where "search_loop s1 n_edge = Inr (Some c, s')"
      and "d' = dict_append d (snd n_edge) (snd c)"
      by (auto simp: ebind_Inr_iff split: if_splits option.splits)
    with search_loop_retains[of s1 n_edge c s'] show ?thesis by blast
  qed
  have b: "run_substitute path4_graph path4_tree {} {} False 1 =
       Inr [((1, 2), [(1, 4)]), ((4, 3), [(4, 1)]), ((3, 2), [(4, 1)])]"
    by code_simp
  from a b show ?thesis by blast
qed

theorem chosen_entry_retained_witness:
  "process_edge (1, 4, 3) (path4_ready, [((4, 3), []), ((3, 2), []), ((2, 1), [])]) =
     Inr (path4_ready\<lparr>quasi_cuts := [(1, 4, 1)]\<rparr>, [((4, 3), [(4, 1)]), ((3, 2), []), ((2, 1), [])])
   \<and> (1, 4, 1) \<in> set (quasi_cuts (path4_ready\<lparr>quasi_cuts := [(1, 4, 1)]\<rparr>))
   \<and> process_edge (1, 3, 2) (path4_ready\<lparr>quasi_cuts := [(1, 4, 1)]\<rparr>,
                             [((4, 3), [(4, 1)]), ((3, 2), []), ((2, 1), [])]) =
     Inr (path4_ready\<lparr>quasi_cuts := [(1, 4, 1)]\<rparr>, [((4, 3), [(4, 1)]), ((3, 2), [(4, 1)]), ((2, 1), [])])"
proof -
  have h: "process_edge (1, 4, 3) (path4_ready, [((4, 3), []), ((3, 2), []), ((2, 1), [])]) =
     Inr (path4_ready\<lparr>quasi_cuts := [(1, 4, 1)]\<rparr>, [((4, 3), [(4, 1)]), ((3, 2), []), ((2, 1), [])])"
    by code_simp
  have h2: "process_edge (1, 3, 2) (path4_ready\<lparr>quasi_cuts := [(1, 4, 1)]\<rparr>,
                             [((4, 3), [(4, 1)]), ((3, 2), []), ((2, 1), [])]) =
     Inr (path4_ready\<lparr>quasi_cuts := [(1, 4, 1)]\<rparr>, [((4, 3), [(4, 1)]), ((3, 2), [(4, 1)]), ((2, 1), [])])"
    by code_simp
  have ne: "[((4, 3), [(4, 1)]), ((3, 2), []), ((2, 1), [])] \<noteq> [((4::int, 3::int), []::(int \<times> int) list), ((3, 2), []), ((2, 1), [])]"
    by simp
  note t = chosen_entry_retained[of "(1, 4, 3)" path4_ready "[((4, 3), []), ((3, 2), []), ((2, 1), [])]"
        "path4_ready\<lparr>quasi_cuts := [(1, 4, 1)]\<rparr>" "[((4, 3), [(4, 1)]), ((3, 2), []), ((2, 1), [])]"]
  have "\<exists>c. c \<in> set (quasi_cuts (path4_ready\<lparr>quasi_cuts := [(1, 4, 1)]\<rparr>))
          \<and> [((4, 3), [(4, 1)]), ((3, 2), []), ((2, 1), [])]
            = dict_append [((4, 3), []), ((3, 2), []), ((2, 1), [])] (snd (1::int, 4, 3)) (snd c)"
    by (rule mp[OF mp[OF conjunct1[OF t] h] ne])
  then have "(1, 4, 1) \<in> set (quasi_cuts (path4_ready\<lparr>quasi_cuts := [(1, 4, 1)]\<rparr>))"
    by auto
  with h h2 show ?thesis by blast
qed

section \<open>The search of the quasi-cut set\<close>

lemma scan_cuts_find:
  assumes "map_of (descendants s) node = Some ds"
    and "\<forall>c \<in> set Q. \<exists>r. map_of (postorder_nodes s) (fst (snd c)) = Some r"
  shows "scan_cuts s weight node Q =
           Inr (find (\<lambda>c. the (map_of (postorder_nodes s) (fst (snd c))) \<in> set ds \<and> fst c = weight) Q)"
  using assms by (induction Q) (auto simp: ebind_def dict_get_def)

lemma find_sorted_least:
  fixes xs :: "'a::linorder list"
  assumes "sorted xs" "find P xs = Some x" "y \<in> set xs" "P y"
  shows "x \<le> y"
  using assms by (induction xs) (auto split: if_splits)

lemma sorted_qc_add: "sorted Q \<Longrightarrow> sorted (qc_add e Q)"
  by (simp add: qc_add_def sorted_insort)

lemma sorted_qc_remove: "sorted Q \<Longrightarrow> sorted (qc_remove e Q)"
  by (simp add: qc_remove_def sorted_remove1)

text \<open>
  C4, amended: where the lookups succeed, \<open>equal_weight_descendant\<close> returns the first
  entry of the quasi-cut set, in ascending (weight, source, target) order, whose SOURCE
  node has its postorder position among the descendants of the queried node and whose
  weight equals the queried weight: the returned entry is a member with both properties
  and is least among such members; the result is \<open>None\<close> exactly when there is none.
\<close>

theorem equal_weight_descendant_first_by_source:
  assumes "map_of (descendants s) (fst (snd n_edge)) = Some ds"
    and "\<forall>c \<in> set (quasi_cuts s). \<exists>r. map_of (postorder_nodes s) (fst (snd c)) = Some r"
    and "sorted (quasi_cuts s)"
  shows "equal_weight_descendant s n_edge =
           Inr (find (\<lambda>c. the (map_of (postorder_nodes s) (fst (snd c))) \<in> set ds
                           \<and> fst c = fst n_edge) (quasi_cuts s))
         \<and> (\<forall>c. equal_weight_descendant s n_edge = Inr (Some c) \<longrightarrow>
               c \<in> set (quasi_cuts s)
               \<and> the (map_of (postorder_nodes s) (fst (snd c))) \<in> set ds \<and> fst c = fst n_edge
               \<and> (\<forall>c' \<in> set (quasi_cuts s).
                     the (map_of (postorder_nodes s) (fst (snd c'))) \<in> set ds \<and> fst c' = fst n_edge
                     \<longrightarrow> c \<le> c'))
         \<and> (equal_weight_descendant s n_edge = Inr None \<longleftrightarrow>
               (\<forall>c \<in> set (quasi_cuts s).
                  \<not> (the (map_of (postorder_nodes s) (fst (snd c))) \<in> set ds \<and> fst c = fst n_edge)))"
proof -
  let ?P = "\<lambda>c. the (map_of (postorder_nodes s) (fst (snd c))) \<in> set ds \<and> fst c = fst n_edge"
  have e: "equal_weight_descendant s n_edge = Inr (find ?P (quasi_cuts s))"
    unfolding equal_weight_descendant_def by (rule scan_cuts_find[OF assms(1,2)])
  have a: "c \<in> set (quasi_cuts s) \<and> ?P c \<and> (\<forall>c' \<in> set (quasi_cuts s). ?P c' \<longrightarrow> c \<le> c')"
    if "equal_weight_descendant s n_edge = Inr (Some c)" for c
  proof -
    from that e have f: "find ?P (quasi_cuts s) = Some c" by simp
    then have "c \<in> set (quasi_cuts s)" "?P c"
      by (auto simp: find_Some_iff)
    moreover have "\<forall>c' \<in> set (quasi_cuts s). ?P c' \<longrightarrow> c \<le> c'"
      using find_sorted_least[OF assms(3) f] by blast
    ultimately show ?thesis by blast
  qed
  have n: "equal_weight_descendant s n_edge = Inr None \<longleftrightarrow> (\<forall>c \<in> set (quasi_cuts s). \<not> ?P c)"
  proof -
    have "find ?P (quasi_cuts s) = None \<longleftrightarrow> (\<forall>c \<in> set (quasi_cuts s). \<not> ?P c)"
      by (simp only: find_None_iff) blast
    then show ?thesis unfolding e by simp
  qed
  from e a n show ?thesis by blast
qed

theorem equal_weight_descendant_first_by_source_witness:
  "equal_weight_descendant (path4_ready\<lparr>quasi_cuts := [(1, 4, 1)]\<rparr>) (1, 4, 3) = Inr (Some (1, 4, 1))
   \<and> map_of (descendants (path4_ready\<lparr>quasi_cuts := [(1, 4, 1)]\<rparr>)) 4 = Some [1]
   \<and> map_of (postorder_nodes (path4_ready\<lparr>quasi_cuts := [(1, 4, 1)]\<rparr>)) 4 = Some 1"
proof -
  let ?s = "path4_ready\<lparr>quasi_cuts := [(1, 4, 1)]\<rparr>"
  have h1: "map_of (descendants ?s) (fst (snd (1::int, 4::int, 3::int))) = Some [1]"
    by (simp add: path4_ready_def)
  have h2: "\<forall>c \<in> set (quasi_cuts ?s). \<exists>r. map_of (postorder_nodes ?s) (fst (snd c)) = Some r"
    by (simp add: path4_ready_def)
  have h3: "sorted (quasi_cuts ?s)" by simp
  from equal_weight_descendant_first_by_source[OF h1 h2 h3]
  have "equal_weight_descendant ?s (1, 4, 3) =
          Inr (find (\<lambda>c. the (map_of (postorder_nodes ?s) (fst (snd c))) \<in> set [1]
                           \<and> fst c = fst (1::int, 4::int, 3::int)) (quasi_cuts ?s))"
    by blast
  then have "equal_weight_descendant ?s (1, 4, 3) = Inr (Some (1, 4, 1))"
    by (simp add: path4_ready_def)
  moreover have "map_of (descendants ?s) 4 = Some [1]" "map_of (postorder_nodes ?s) 4 = Some 1"
    by (simp_all add: path4_ready_def)
  ultimately show ?thesis by blast
qed

text \<open>
  C4, as stated (the test on the target of the entry): in the path scenario rooted at
  node 1, with the entry \<open>(1, 4, 1)\<close> in the set and the query for node 4, the program
  returns the entry, whose source 4 is a descendant of 4, while the target 1 is not, so
  that the search on targets finds nothing.
\<close>

theorem find_first_matching_target_counterexample:
  "equal_weight_descendant (path4_ready\<lparr>quasi_cuts := [(1, 4, 1)]\<rparr>) (1, 4, 3) = Inr (Some (1, 4, 1))
   \<and> spec_find_first_matching (path4_ready\<lparr>quasi_cuts := [(1, 4, 1)]\<rparr>) 1 4 = None"
  by code_simp

section \<open>Validation at construction\<close>

lemma ebind_Inl_iff: "ebind m f = Inl e \<longleftrightarrow> m = Inl e \<or> (\<exists>x. m = Inr x \<and> f x = Inl e)"
  by (cases m) (auto simp: ebind_def)

lemma check_input_tree_Inr_iff:
  "check_input_tree t g = Inr u \<longleftrightarrow>
     check_input_graph t = Inr () \<and> (\<forall>e \<in> set (nx_edges t). nx_in_edges g e) \<and> nx_is_tree t = Inr True"
  by (auto simp: check_input_tree_def is_tree_of_graph_def ebind_Inr_iff split: if_splits)

text \<open>
  C7, amended: construction fails whenever a tree edge is absent from the graph or the
  tree is not a tree in the sense of \<open>nx.is_tree\<close> (connected, one edge less than nodes);
  it succeeds exactly when both inputs pass \<open>check_input_graph\<close>, every tree edge is a
  graph edge and the tree is such a tree. Whether the tree touches every node of the
  graph is not examined. A failure is a value \<open>Inl err\<close>, which holds no instance.
\<close>

theorem construct_validation:
  "((\<exists>e \<in> set (nx_edges t). \<not> nx_in_edges g e) \<or> nx_is_tree t \<noteq> Inr True
      \<longrightarrow> (\<exists>err. construct g t fixed restricted ord = Inl err))
   \<and> ((\<exists>s. construct g t fixed restricted ord = Inr s) \<longleftrightarrow>
        check_input_graph g = Inr () \<and> check_input_graph t = Inr ()
        \<and> (\<forall>e \<in> set (nx_edges t). nx_in_edges g e) \<and> nx_is_tree t = Inr True)"
proof -
  have b: "(\<exists>s. construct g t fixed restricted ord = Inr s) \<longleftrightarrow>
        check_input_graph g = Inr () \<and> check_input_graph t = Inr ()
        \<and> (\<forall>e \<in> set (nx_edges t). nx_in_edges g e) \<and> nx_is_tree t = Inr True"
    by (simp add: construct_def ebind_Inr_iff check_input_tree_Inr_iff)
  have a: "\<exists>err. construct g t fixed restricted ord = Inl err"
    if "(\<exists>e \<in> set (nx_edges t). \<not> nx_in_edges g e) \<or> nx_is_tree t \<noteq> Inr True"
  proof (cases "construct g t fixed restricted ord")
    case (Inl err)
    then show ?thesis by blast
  next
    case (Inr s)
    with b that show ?thesis by blast
  qed
  from a b show ?thesis by blast
qed

theorem construct_validation_witness:
  "construct two_node_graph stray_tree {} {} False = Inl (ValueError ''Input tree is not a spanning tree.'')
   \<and> \<not> nx_in_edges two_node_graph (1, 3)
   \<and> construct path4_graph path4_tree {} {} False = Inr path4_obj
   \<and> nx_is_tree path4_tree = Inr True"
proof -
  have e: "(1, 3) \<in> set (nx_edges stray_tree)" by code_simp
  have n: "\<not> nx_in_edges two_node_graph (1, 3)" by code_simp
  from e n have h: "(\<exists>e \<in> set (nx_edges stray_tree). \<not> nx_in_edges two_node_graph e)
                    \<or> nx_is_tree stray_tree \<noteq> Inr True" by blast
  note t = construct_validation[where t = stray_tree and g = two_node_graph and fixed = "{}" and restricted = "{}" and ord = False]
  have "\<exists>err. construct two_node_graph stray_tree {} {} False = Inl err"
    by (rule mp[OF conjunct1[OF t] h])
  moreover have "construct two_node_graph stray_tree {} {} False = Inl (ValueError ''Input tree is not a spanning tree.'')"
    by code_simp
  moreover have c: "construct path4_graph path4_tree {} {} False = Inr path4_obj" by code_simp
  moreover have "nx_is_tree path4_tree = Inr True"
    using conjunct2[OF construct_validation[where t = path4_tree and g = path4_graph and fixed = "{}" and restricted = "{}" and ord = False]] c by blast
  ultimately show ?thesis using n by blast
qed

text \<open>
  C7, as stated: the one-node tree does not touch node 2 of the two-node graph, and the
  construction succeeds.
\<close>

theorem construct_accepts_non_spanning_counterexample:
  "construct two_node_graph one_node_tree {} {} False =
     Inr \<lparr>graph = two_node_graph, tree = one_node_tree, fixed_edges = {}, restricted_edges = {},
          ordered = False, directed = [], postorder_nodes = [], descendants = [],
          quasi_cuts = []\<rparr>
   \<and> 2 \<in> set (nx_nodes two_node_graph) \<and> 2 \<notin> set (nx_nodes one_node_tree)"
  by code_simp

section \<open>Depth-first search: blocks, closure, reachability\<close>

lemma dfs_children_block:
  "\<exists>blk. snd (dfs_children G cs (vis, out)) = out @ blk
         \<and> set (fst (dfs_children G cs (vis, out))) = set vis \<union> set blk
         \<and> set blk \<inter> set vis = {} \<and> distinct blk
         \<and> set cs \<subseteq> set (fst (dfs_children G cs (vis, out)))"
proof (induction G cs "(vis, out)" arbitrary: vis out rule: dfs_children.induct)
  case (1 G)
  show ?case by simp
next
  case (2 G c cs vis out)
  show ?case
  proof (cases "c \<in> set vis")
    case True
    from 2(1)[OF True] obtain blk where
      "snd (dfs_children G cs (vis, out)) = out @ blk"
      "set (fst (dfs_children G cs (vis, out))) = set vis \<union> set blk"
      "set blk \<inter> set vis = {}" "distinct blk"
      "set cs \<subseteq> set (fst (dfs_children G cs (vis, out)))" by blast
    with True show ?thesis by auto
  next
    case False
    obtain v1 o1 where r: "dfs_children G (succs G c) (c # vis, out) = (v1, o1)"
      by (cases "dfs_children G (succs G c) (c # vis, out)")
    from 2(2)[OF False] r obtain b1 where b1:
      "o1 = out @ b1" "set v1 = set (c # vis) \<union> set b1"
      "set b1 \<inter> set (c # vis) = {}" "distinct b1" by auto
    from 2(3)[OF False r[symmetric]] obtain b2 where b2:
      "snd (dfs_children G cs (v1, o1 @ [c])) = (o1 @ [c]) @ b2"
      "set (fst (dfs_children G cs (v1, o1 @ [c]))) = set v1 \<union> set b2"
      "set b2 \<inter> set v1 = {}" "distinct b2"
      "set cs \<subseteq> set (fst (dfs_children G cs (v1, o1 @ [c])))" by blast
    have e: "dfs_children G (c # cs) (vis, out) = dfs_children G cs (v1, o1 @ [c])"
      using False r by simp
    show ?thesis
      unfolding e
      by (rule exI[of _ "b1 @ [c] @ b2"]) (use b1 b2 False in auto)
  qed
qed

lemma dfs_children_closed:
  assumes "\<forall>x \<in> set out. set (succs G x) \<subseteq> set vis"
  shows "\<forall>x \<in> set (snd (dfs_children G cs (vis, out))).
           set (succs G x) \<subseteq> set (fst (dfs_children G cs (vis, out)))"
  using assms
proof (induction G cs "(vis, out)" arbitrary: vis out rule: dfs_children.induct)
  case (1 G)
  then show ?case by simp
next
  case (2 G c cs vis out)
  show ?case
  proof (cases "c \<in> set vis")
    case True
    with 2(1)[OF True 2(4)] show ?thesis by simp
  next
    case False
    obtain v1 o1 where r: "dfs_children G (succs G c) (c # vis, out) = (v1, o1)"
      by (cases "dfs_children G (succs G c) (c # vis, out)")
    have "\<forall>x \<in> set out. set (succs G x) \<subseteq> set (c # vis)" using 2(4) by auto
    from 2(2)[OF False this] r have c1: "\<forall>x \<in> set o1. set (succs G x) \<subseteq> set v1" by simp
    from dfs_children_block[of G "succs G c" "c # vis" out] r
    have "set (succs G c) \<subseteq> set v1" by auto
    with c1 have "\<forall>x \<in> set (o1 @ [c]). set (succs G x) \<subseteq> set v1" by auto
    from 2(3)[OF False r[symmetric] this] show ?thesis using False r by simp
  qed
qed

lemma dfs_children_reachable:
  "\<forall>y \<in> set (snd (dfs_children G cs (vis, out))) - set out.
      \<exists>c \<in> set cs. (c, y) \<in> (edge_rel G)\<^sup>*"
proof (induction G cs "(vis, out)" arbitrary: vis out rule: dfs_children.induct)
  case (1 G)
  show ?case by simp
next
  case (2 G c cs vis out)
  show ?case
  proof (cases "c \<in> set vis")
    case True
    with 2(1)[OF True] show ?thesis by auto
  next
    case False
    obtain v1 o1 where r: "dfs_children G (succs G c) (c # vis, out) = (v1, o1)"
      by (cases "dfs_children G (succs G c) (c # vis, out)")
    have e: "dfs_children G (c # cs) (vis, out) = dfs_children G cs (v1, o1 @ [c])"
      using False r by simp
    show ?thesis
    proof
      fix y assume "y \<in> set (snd (dfs_children G (c # cs) (vis, out))) - set out"
      then have y: "y \<in> set (snd (dfs_children G cs (v1, o1 @ [c])))" "y \<notin> set out"
        unfolding e by auto
      show "\<exists>c' \<in> set (c # cs). (c', y) \<in> (edge_rel G)\<^sup>*"
      proof (cases "y \<in> set (o1 @ [c])")
        case False
        with y 2(3)[OF \<open>c \<notin> set vis\<close> r[symmetric]] show ?thesis by auto
      next
        case True
        show ?thesis
        proof (cases "y = c")
          case True
          then show ?thesis by auto
        next
          case False
          with True y have "y \<in> set o1 - set out" by auto
          with 2(2)[OF \<open>c \<notin> set vis\<close>] r obtain c' where
            "c' \<in> set (succs G c)" "(c', y) \<in> (edge_rel G)\<^sup>*" by auto
          then have "(c, y) \<in> (edge_rel G)\<^sup>*"
            by (auto simp: edge_rel_def intro: converse_rtrancl_into_rtrancl)
          then show ?thesis by auto
        qed
      qed
    qed
  qed
qed

lemma reach_eq_rtrancl: "set (reach G r) = (edge_rel G)\<^sup>* `` {r}"
proof
  show "set (reach G r) \<subseteq> (edge_rel G)\<^sup>* `` {r}"
    using dfs_children_reachable[of G "[r]" "[]" "[]"] by (auto simp: reach_def)
next
  obtain blk where b: "snd (dfs_children G [r] ([], [])) = blk"
    "set (fst (dfs_children G [r] ([], []))) = set blk"
    "r \<in> set (fst (dfs_children G [r] ([], [])))"
    using dfs_children_block[of G "[r]" "[]" "[]"] by auto
  have cl: "\<forall>x \<in> set blk. set (succs G x) \<subseteq> set blk"
    using dfs_children_closed[of "[]" G "[]" "[r]"] b by auto
  have "y \<in> set blk" if "(r, y) \<in> (edge_rel G)\<^sup>*" for y
    using that
  proof (induction rule: rtrancl_induct)
    case base
    from b show ?case by simp
  next
    case (step y z)
    with cl show ?case by (auto simp: edge_rel_def)
  qed
  with b show "(edge_rel G)\<^sup>* `` {r} \<subseteq> set (reach G r)"
    by (auto simp: reach_def)
qed

lemma distinct_reach: "distinct (reach G r)"
  using dfs_children_block[of G "[r]" "[]" "[]"] by (auto simp: reach_def)

lemma upto_node_split:
  "distinct (pre @ a # post) \<Longrightarrow> upto_node (pre @ a # post) a = insert a (set pre)"
proof -
  assume d: "distinct (pre @ a # post)"
  then have "takeWhile (\<lambda>x. x \<noteq> a) (pre @ a # post) = pre"
    by (subst takeWhile_append2) auto
  then show ?thesis by (simp add: upto_node_def)
qed

lemma split_in_append:
  assumes "xs @ ys = b1 @ x # b2"
  shows "(\<exists>b2'. xs = b1 @ x # b2' \<and> b2 = b2' @ ys) \<or> (\<exists>b1'. b1 = xs @ b1' \<and> ys = b1' @ x # b2)"
  using assms by (auto simp: append_eq_append_conv2 append_eq_Cons_conv)

lemma kept_rel_succ: "(a, b) \<in> kept_rel po G \<Longrightarrow> b \<in> set (succs G a)"
  by (simp add: kept_rel_def)

text \<open>One step from a node of a finished block stays inside the block.\<close>

lemma kept_step_in_block:
  assumes sym: "symmetric_graph G"
    and cl: "\<forall>x \<in> set out. set (succs G x) \<subseteq> set vis"
    and dis: "set blk \<inter> set vis = {}"
    and po: "po = out @ blk @ rest" and d: "distinct po"
    and a: "a \<in> set blk" and k: "(a, b) \<in> kept_rel po G"
  shows "b \<in> set blk"
proof -
  from a obtain b1 b2 where s: "blk = b1 @ a # b2" by (auto simp: in_set_conv_decomp)
  have "po = (out @ b1) @ a # (b2 @ rest)" using po s by simp
  with d have "upto_node po a = insert a (set (out @ b1))"
    using upto_node_split[of "out @ b1" a "b2 @ rest"] by simp
  with k have b: "b \<in> set (succs G a)" "b \<in> insert a (set out \<union> set b1)"
    by (auto simp: kept_rel_def)
  have "b \<notin> set out"
  proof
    assume "b \<in> set out"
    with cl have "set (succs G b) \<subseteq> set vis" by blast
    moreover from sym b(1) have "a \<in> set (succs G b)" by (auto simp: symmetric_graph_def)
    ultimately have "a \<in> set vis" by blast
    with a dis show False by blast
  qed
  with b s show ?thesis by auto
qed

lemma kept_rtrancl_in_block:
  assumes sym: "symmetric_graph G"
    and cl: "\<forall>x \<in> set out. set (succs G x) \<subseteq> set vis"
    and dis: "set blk \<inter> set vis = {}"
    and po: "po = out @ blk @ rest" and d: "distinct po"
    and a: "a \<in> set blk" and k: "(a, b) \<in> (kept_rel po G)\<^sup>*"
  shows "b \<in> set blk"
  using k
proof (induction rule: rtrancl_induct)
  case base
  from a show ?case .
next
  case (step y z)
  from kept_step_in_block[OF sym cl dis po d step.IH step.hyps(2)] show ?case .
qed

lemma dfs_children_segments:
  assumes sym: "symmetric_graph G"
    and cl: "\<forall>x \<in> set out. set (succs G x) \<subseteq> set vis"
    and res: "snd (dfs_children G cs (vis, out)) = out @ blk"
    and po: "po = out @ blk @ rest" and d: "distinct po"
  shows "(\<forall>y \<in> set blk. \<exists>c \<in> set cs \<inter> set blk. (c, y) \<in> (kept_rel po G)\<^sup>*)
       \<and> (\<forall>b1 x b2. blk = b1 @ x # b2 \<longrightarrow>
            (\<exists>p seg. b1 = p @ seg \<and> (kept_rel po G)\<^sup>* `` {x} = insert x (set seg)))"
  using sym cl res po
proof (induction G cs "(vis, out)" arbitrary: vis out blk rest rule: dfs_children.induct)
  case (1 G)
  then show ?case by simp
next
  case (2 G c cs vis out)
  note sym = 2(4) and cl = 2(5) and res = 2(6) and po = 2(7)
  show ?case
  proof (cases "c \<in> set vis")
    case True
    from res True have "snd (dfs_children G cs (vis, out)) = out @ blk" by simp
    from 2(1)[OF True sym cl this po] show ?thesis by auto
  next
    case False
    obtain v1 o1 where r: "dfs_children G (succs G c) (c # vis, out) = (v1, o1)"
      by (cases "dfs_children G (succs G c) (c # vis, out)")
    from dfs_children_block[of G "succs G c" "c # vis" out] r obtain blk1 where b1:
      "o1 = out @ blk1" "set v1 = set (c # vis) \<union> set blk1"
      "set blk1 \<inter> set (c # vis) = {}" "distinct blk1" "set (succs G c) \<subseteq> set v1" by auto
    have e: "dfs_children G (c # cs) (vis, out) = dfs_children G cs (v1, o1 @ [c])"
      using False r by simp
    from dfs_children_block[of G cs v1 "o1 @ [c]"] obtain blk2 where b2:
      "snd (dfs_children G cs (v1, o1 @ [c])) = (o1 @ [c]) @ blk2"
      "set blk2 \<inter> set v1 = {}" by blast
    from res e b2(1) b1(1) have blk: "blk = blk1 @ c # blk2" by simp
    have cl1: "\<forall>x \<in> set out. set (succs G x) \<subseteq> set (c # vis)" using cl by auto
    have r1: "snd (dfs_children G (succs G c) (c # vis, out)) = out @ blk1" using r b1(1) by simp
    have po1: "po = out @ blk1 @ (c # blk2 @ rest)" using po blk by simp
    note ih1 = 2(2)[OF False sym cl1 r1 po1]
    from dfs_children_closed[OF cl1, of "succs G c"] r
    have "\<forall>x \<in> set o1. set (succs G x) \<subseteq> set v1" by simp
    with b1(5) have cl2: "\<forall>x \<in> set (o1 @ [c]). set (succs G x) \<subseteq> set v1" by auto
    have po2: "po = (o1 @ [c]) @ blk2 @ rest" using po blk b1(1) by simp
    note ih2 = 2(3)[OF False r[symmetric] sym cl2 b2(1) po2]
    \<comment> \<open>the block of \<open>c\<close>\<close>
    have up: "upto_node po c = insert c (set (out @ blk1))"
      using upto_node_split[of "out @ blk1" c "blk2 @ rest"] d po1 by simp
    have reach_c: "(c, y) \<in> (kept_rel po G)\<^sup>*" if "y \<in> set blk1" for y
    proof -
      from ih1 that obtain c' where c': "c' \<in> set (succs G c)" "c' \<in> set blk1"
        "(c', y) \<in> (kept_rel po G)\<^sup>*" by blast
      with up have "(c, c') \<in> kept_rel po G" by (simp add: kept_rel_def)
      from converse_rtrancl_into_rtrancl[OF this c'(3)] show ?thesis .
    qed
    have dis_c: "set (blk1 @ [c]) \<inter> set vis = {}" using b1(3) False by auto
    have po_c: "po = out @ (blk1 @ [c]) @ (blk2 @ rest)" using po1 by simp
    have block_c: "(kept_rel po G)\<^sup>* `` {c} = insert c (set blk1)"
    proof
      show "(kept_rel po G)\<^sup>* `` {c} \<subseteq> insert c (set blk1)"
        using kept_rtrancl_in_block[OF sym cl dis_c po_c d, of c] by auto
      show "insert c (set blk1) \<subseteq> (kept_rel po G)\<^sup>* `` {c}"
        using reach_c by auto
    qed
    have s2: "\<forall>y \<in> set blk. \<exists>c' \<in> set (c # cs) \<inter> set blk. (c', y) \<in> (kept_rel po G)\<^sup>*"
    proof
      fix y assume "y \<in> set blk"
      with blk consider "y \<in> set blk1" | "y = c" | "y \<in> set blk2" by auto
      then show "\<exists>c' \<in> set (c # cs) \<inter> set blk. (c', y) \<in> (kept_rel po G)\<^sup>*"
      proof cases
        case 1
        with reach_c blk show ?thesis by auto
      next
        case 2
        with blk show ?thesis by auto
      next
        case 3
        with ih2 blk show ?thesis by auto
      qed
    qed
    have s1: "\<exists>p seg. b1 = p @ seg \<and> (kept_rel po G)\<^sup>* `` {x} = insert x (set seg)"
      if "blk = b1 @ x # b2" for b1 x b2
    proof -
      from that blk have "blk1 @ (c # blk2) = b1 @ x # b2" by simp
      from split_in_append[OF this]
      consider b2' where "blk1 = b1 @ x # b2'"
        | b1' where "b1 = blk1 @ b1'" "c # blk2 = b1' @ x # b2" by blast
      then show ?thesis
      proof cases
        case 1
        with ih1 show ?thesis by blast
      next
        case 2
        show ?thesis
        proof (cases b1')
          case Nil
          with 2 have "b1 = [] @ blk1" "x = c" by auto
          with block_c show ?thesis by blast
        next
          case (Cons h t)
          with 2 have t: "blk2 = t @ x # b2" "b1 = (blk1 @ [c]) @ t" by auto
          from ih2 t(1) obtain p seg where "t = p @ seg"
            "(kept_rel po G)\<^sup>* `` {x} = insert x (set seg)" by blast
          with t(2) have "b1 = (blk1 @ [c] @ p) @ seg" by simp
          with \<open>(kept_rel po G)\<^sup>* `` {x} = insert x (set seg)\<close> show ?thesis by blast
        qed
      qed
    qed
    from s1 s2 show ?thesis by blast
  qed
qed

lemma postorder_segments:
  assumes "symmetric_graph G" and "reach G root = pre @ x # post"
  shows "\<exists>p seg. pre = p @ seg \<and> (kept_rel (reach G root) G)\<^sup>* `` {x} = insert x (set seg)"
proof -
  have r: "snd (dfs_children G [root] ([], [])) = [] @ reach G root" by (simp add: reach_def)
  have p: "reach G root = [] @ reach G root @ []" by simp
  from dfs_children_segments[OF assms(1) _ r p distinct_reach] assms(2) show ?thesis by auto
qed

section \<open>The pruning loop and the positions\<close>

lemma fold_remove_edge:
  "fold remove_edge (map (\<lambda>nb. (n, nb)) bad) D =
     map (\<lambda>(m, l). (m, if m = n then filter (\<lambda>x. fst x \<notin> set bad) l else l)) D"
proof (induction bad arbitrary: D)
  case Nil
  show ?case by (induction D) auto
next
  case (Cons b bad)
  have "remove_edge (n, b) D = map (\<lambda>(m, l). (m, if m = n then filter (\<lambda>x. fst x \<noteq> b) l else l)) D"
    by (simp add: remove_edge_def cong: if_cong)
  then show ?case
    by (simp add: Cons.IH comp_def case_prod_unfold)
qed

lemma dict_set_fresh: "k \<notin> fst ` set d \<Longrightarrow> dict_set d k v = d @ [(k, v)]"
  by (induction d) auto

lemma map_of_map_keep:
  "map_of (map (\<lambda>(m, l). (m, f m l)) D) n = map_option (f n) (map_of D n)"
  by (induction D) auto

lemma upto_node_Cons_same: "upto_node (n # ns) n = {n}"
  by (simp add: upto_node_def)

lemma upto_node_Cons_other: "m \<noteq> n \<Longrightarrow> upto_node (n # ns) m = insert n (upto_node ns m)"
  by (auto simp: upto_node_def)

lemma prune_loop_result:
  assumes "distinct (map fst pd @ ns)" and "\<forall>n \<in> set ns. map_of D n \<noteq> None"
    and "distinct (map fst D)"
  shows "prune_loop ns (length pd) pd D =
           Inr (pd @ zip ns [Suc (length pd) ..< Suc (length pd) + length ns],
                map (\<lambda>(m, l). (m, if m \<in> set ns
                                    then filter (\<lambda>x. fst x \<in> fst ` set pd \<union> upto_node ns m) l
                                    else l)) D)"
  using assms
proof (induction ns arbitrary: pd D)
  case Nil
  show ?case by (simp add: case_prod_unfold)
next
  case (Cons n ns)
  from Cons.prems(2) obtain l where l: "map_of D n = Some l" by auto
  from Cons.prems(1) have fresh: "n \<notin> fst ` set pd" by auto
  let ?pd = "pd @ [(n, Suc (length pd))]"
  let ?bad = "filter (\<lambda>nb. map_of ?pd nb = None) (map fst l)"
  let ?D1 = "map (\<lambda>(m, l). (m, if m = n then filter (\<lambda>x. fst x \<notin> set ?bad) l else l)) D"
  have step: "prune_loop (n # ns) (length pd) pd D = prune_loop ns (Suc (length pd)) ?pd ?D1"
    using l fresh
    by (simp add: dict_set_fresh nx_neighbors_def ebind_def nx_remove_edges_from_def
        fold_remove_edge[symmetric] comp_def)
  have d1: "distinct (map fst ?pd @ ns)" using Cons.prems(1) by auto
  have k1: "\<forall>m \<in> set ns. map_of ?D1 m \<noteq> None"
    using Cons.prems(2) by (simp add: map_of_map_keep)
  have dd: "distinct (map fst ?D1)"
    using Cons.prems(3) by (simp add: comp_def case_prod_unfold)
  have len: "length ?pd = Suc (length pd)" by simp
  have ih: "prune_loop ns (length ?pd) ?pd ?D1 =
           Inr (?pd @ zip ns [Suc (length ?pd) ..< Suc (length ?pd) + length ns],
                map (\<lambda>(m, l). (m, if m \<in> set ns
                                    then filter (\<lambda>x. fst x \<in> fst ` set ?pd \<union> upto_node ns m) l
                                    else l)) ?D1)"
    by (rule Cons.IH[OF d1 k1 dd])
  have z: "pd @ zip (n # ns) [Suc (length pd) ..< Suc (length pd) + length (n # ns)]
           = ?pd @ zip ns [Suc (Suc (length pd)) ..< Suc (Suc (length pd)) + length ns]"
  proof -
    have "[Suc (length pd) ..< Suc (length pd) + length (n # ns)]
          = Suc (length pd) # [Suc (Suc (length pd)) ..< Suc (length pd) + length (n # ns)]"
      by (rule upt_conv_Cons) simp
    then show ?thesis by simp
  qed
  have bad: "fst x \<notin> set ?bad \<longleftrightarrow> fst x \<in> insert n (fst ` set pd)" if "x \<in> set l" for x
    using that by (auto simp: map_of_eq_None_iff image_iff)
  have g: "map (\<lambda>(m, l). (m, if m \<in> set ns
                                    then filter (\<lambda>x. fst x \<in> fst ` set ?pd \<union> upto_node ns m) l
                                    else l)) ?D1
         = map (\<lambda>(m, l). (m, if m \<in> set (n # ns)
                                    then filter (\<lambda>x. fst x \<in> fst ` set pd \<union> upto_node (n # ns) m) l
                                    else l)) D"
    unfolding map_map
  proof (rule map_cong[OF refl])
    fix x assume xd: "x \<in> set D"
    obtain m la where x: "x = (m, la)" by (cases x)
    with xd have ml: "(m, la) \<in> set D" by simp
    show "((\<lambda>(m, l). (m, if m \<in> set ns then filter (\<lambda>x. fst x \<in> fst ` set ?pd \<union> upto_node ns m) l else l))
           \<circ> (\<lambda>(m, l). (m, if m = n then filter (\<lambda>x. fst x \<notin> set ?bad) l else l))) x
          = (case x of (m, l) \<Rightarrow> (m, if m \<in> set (n # ns)
                   then filter (\<lambda>x. fst x \<in> fst ` set pd \<union> upto_node (n # ns) m) l else l))"
    proof (cases "m = n")
      case True
      with ml l Cons.prems(3) have la: "la = l" by (metis map_of_is_SomeI option.inject)
      have f: "filter (\<lambda>x. fst x \<notin> set ?bad) l = filter (\<lambda>x. fst x \<in> fst ` set pd \<union> upto_node (n # ns) n) l"
        by (rule filter_cong[OF refl]) (use bad in \<open>simp add: upto_node_Cons_same\<close>)
      from Cons.prems(1) have "n \<notin> set ns" by auto
      with True la f show ?thesis unfolding x by simp
    next
      case False
      have f: "filter (\<lambda>x. fst x \<in> fst ` set ?pd \<union> upto_node ns m) la
               = filter (\<lambda>x. fst x \<in> fst ` set pd \<union> upto_node (n # ns) m) la"
        by (rule filter_cong[OF refl]) (use False in \<open>auto simp: upto_node_Cons_other\<close>)
      from False f show ?thesis unfolding x by simp
    qed
  qed
  show ?case unfolding step ih[unfolded len] z g ..
qed

lemma prune_loop_pruned:
  assumes "distinct po" and "\<forall>n \<in> set po. map_of D n \<noteq> None" and "distinct (map fst D)"
  shows "prune_loop po 0 [] D = Inr (ranks po, pruned po D)"
  using prune_loop_result[of "[]" po D] assms
  by (simp add: ranks_def pruned_def del: upt_Suc cong: if_cong)

lemma rank_split:
  assumes "distinct po" and "po = pre @ x # post"
  shows "map_of (ranks po) x = Some (Suc (length pre))"
proof -
  have i: "length pre < length po" using assms(2) by simp
  have "map_of (zip po [Suc 0 ..< Suc (length po)]) (po ! length pre)
        = Some ([Suc 0 ..< Suc (length po)] ! length pre)"
    by (rule map_of_zip_nth) (use assms(1) i in auto)
  moreover have "po ! length pre = x" using assms(2) by simp
  moreover have "[Suc 0 ..< Suc (length po)] ! length pre = Suc (length pre)"
    using i by (simp del: upt_Suc)
  ultimately show ?thesis by (simp add: ranks_def)
qed

lemma map_fst_ranks: "map fst (ranks po) = po"
  by (simp add: ranks_def del: upt_Suc)

lemma succs_pruned:
  "succs (pruned po D) a =
     (if a \<in> set po then filter (\<lambda>b. b \<in> upto_node po a) (succs D a) else succs D a)"
proof -
  have "map_of (pruned po D) a
        = map_option (\<lambda>l. if a \<in> set po then filter (\<lambda>x. fst x \<in> upto_node po a) l else l) (map_of D a)"
    unfolding pruned_def by (rule map_of_map_keep)
  then show ?thesis
    by (cases "map_of D a") (auto simp: succs_def adj_def filter_map comp_def)
qed

lemma edge_rel_pruned:
  assumes "set (nx_nodes D) \<subseteq> set po"
  shows "edge_rel (pruned po D) = kept_rel po D"
proof -
  have "succs D a = []" if "a \<notin> set po" for a
  proof -
    from that assms have "a \<notin> fst ` set D" by (auto simp: nx_nodes_def)
    then have "map_of D a = None" by (simp add: map_of_eq_None_iff)
    then show ?thesis by (simp add: succs_def adj_def)
  qed
  then have "a \<in> set po" if "b \<in> set (succs D a)" for a b
    using that by fastforce
  then show ?thesis
    by (auto simp: edge_rel_def kept_rel_def succs_pruned split: if_splits)
qed

lemma rank_nth:
  assumes "distinct po" and "i < length po"
  shows "map_of (ranks po) (po ! i) = Some (Suc i)"
proof -
  have "map_of (zip po [Suc 0 ..< Suc (length po)]) (po ! i) = Some ([Suc 0 ..< Suc (length po)] ! i)"
    by (rule map_of_zip_nth) (use assms in auto)
  moreover have "[Suc 0 ..< Suc (length po)] ! i = Suc i"
    using assms(2) by (simp del: upt_Suc)
  ultimately show ?thesis by (simp add: ranks_def)
qed

lemma rank_of_nth: "distinct po \<Longrightarrow> i < length po \<Longrightarrow> rank_of po (po ! i) = Suc i"
  by (simp add: rank_of_def rank_nth)

lemma dict_get_ranks:
  "distinct po \<Longrightarrow> y \<in> set po \<Longrightarrow> dict_get (ranks po) y = Inr (rank_of po y)"
  by (auto simp: in_set_conv_nth dict_get_def rank_of_def rank_nth)

lemma inj_on_rank_of: "distinct po \<Longrightarrow> inj_on (rank_of po) (set po)"
  by (rule inj_onI) (auto simp: in_set_conv_nth rank_of_nth)

lemma rank_of_segment:
  assumes "distinct po" and "po = p @ seg @ post"
  shows "rank_of po ` set seg = {Suc (length p) ..< Suc (length p + length seg)}"
proof -
  have n: "rank_of po (seg ! j) = Suc (length p + j)" if "j < length seg" for j
  proof -
    have "po ! (length p + j) = seg ! j" using assms(2) that by (simp add: nth_append)
    moreover have "length p + j < length po" using assms(2) that by simp
    ultimately show ?thesis using rank_of_nth[OF assms(1), of "length p + j"] by simp
  qed
  show ?thesis
  proof (intro set_eqI iffI)
    fix r assume "r \<in> rank_of po ` set seg"
    then obtain j where "j < length seg" "r = rank_of po (seg ! j)"
      by (auto simp: in_set_conv_nth)
    with n show "r \<in> {Suc (length p) ..< Suc (length p + length seg)}" by simp
  next
    fix r assume r: "r \<in> {Suc (length p) ..< Suc (length p + length seg)}"
    then have j: "r - Suc (length p) < length seg" by auto
    from n[OF j] r have "rank_of po (seg ! (r - Suc (length p))) = r" by simp
    with j show "r \<in> rank_of po ` set seg" by (metis imageI nth_mem)
  qed
qed

lemma emap_all_Inr:
  "\<forall>x \<in> set xs. f x = Inr (g x) \<Longrightarrow> emap f xs = Inr (map g xs)"
  by (induction xs) (auto simp: ebind_def)

lemma nx_nodes_pruned: "nx_nodes (pruned po D) = nx_nodes D"
  by (simp add: pruned_def nx_nodes_def comp_def case_prod_unfold)

lemma descendants_of_segment:
  assumes sym: "symmetric_graph T"
    and cov: "set (nx_nodes T) = set (reach T root)"
    and po: "reach T root = pre @ x # post"
  shows "\<exists>p seg. pre = p @ seg \<and>
           descendants_of (ranks (reach T root)) (pruned (reach T root) T) x
             = Inr [Suc (length p) ..< Suc (Suc (length pre))]"
proof -
  let ?po = "reach T root"
  let ?D = "pruned ?po T"
  have d: "distinct ?po" by (rule distinct_reach)
  from postorder_segments[OF sym po] obtain p seg where
    ps: "pre = p @ seg" and k: "(kept_rel ?po T)\<^sup>* `` {x} = insert x (set seg)" by blast
  have xin: "x \<in> set ?po" using po by simp
  have er: "edge_rel ?D = kept_rel ?po T"
    by (rule edge_rel_pruned) (use cov in simp)
  have "set (map fst ?D) = set (map fst T)"
    using nx_nodes_pruned[of ?po T] by (simp only: nx_nodes_def)
  then have "x \<in> fst ` set ?D" using xin cov by (simp add: nx_nodes_def)
  then obtain l where l: "map_of ?D x = Some l"
    by (cases "map_of ?D x") (auto simp: map_of_eq_None_iff)
  let ?ch = "filter (\<lambda>n. n \<noteq> x) (reach ?D x)"
  have nd: "nx_descendants ?D x = Inr ?ch" using l by (simp add: nx_descendants_def)
  have sr: "set (reach ?D x) = insert x (set seg)"
    unfolding reach_eq_rtrancl er by (rule k)
  have xs: "x \<notin> set seg" using d po ps by auto
  have sch: "set ?ch = set seg" using sr xs by auto
  have dch: "distinct ?ch" using distinct_reach[of ?D x] by simp
  have segpo: "set seg \<subseteq> set ?po" using po ps by auto
  have em: "emap (dict_get (ranks ?po)) ?ch = Inr (map (rank_of ?po) ?ch)"
    by (rule emap_all_Inr) (use sch segpo dict_get_ranks[OF d] in auto)
  have rx: "dict_get (ranks ?po) x = Inr (Suc (length pre))"
    using rank_split[OF d po] by (simp add: dict_get_def)
  have rox: "rank_of ?po x = Suc (length pre)"
    using rank_split[OF d po] by (simp add: rank_of_def)
  have res: "descendants_of (ranks ?po) ?D x
             = Inr (sort (Suc (length pre) # map (rank_of ?po) ?ch))"
    by (simp only: descendants_of_def rx nd em ebind_def sum.case)
  have po2: "?po = p @ seg @ (x # post)" using po ps by simp
  have rs: "rank_of ?po ` set seg = {Suc (length p) ..< Suc (length p + length seg)}"
    by (rule rank_of_segment[OF d po2])
  have st: "set (Suc (length pre) # map (rank_of ?po) ?ch) = {Suc (length p) ..< Suc (Suc (length pre))}"
  proof -
    have "set (Suc (length pre) # map (rank_of ?po) ?ch)
          = insert (Suc (length pre)) (rank_of ?po ` set seg)"
      by (simp only: list.set set_map sch)
    also have "\<dots> = insert (Suc (length p + length seg)) {Suc (length p) ..< Suc (length p + length seg)}"
      by (simp only: rs ps length_append)
    also have "\<dots> = {Suc (length p) ..< Suc (Suc (length p + length seg))}"
      by (simp add: atLeastLessThanSuc)
    finally show ?thesis by (simp only: ps length_append)
  qed
  have "distinct (map (rank_of ?po) (x # ?ch))"
  proof (rule iffD2[OF distinct_map], rule conjI)
    show "distinct (x # ?ch)" using dch by simp
    show "inj_on (rank_of ?po) (set (x # ?ch))"
      by (rule inj_on_subset[OF inj_on_rank_of[OF d]]) (use xin sch segpo in auto)
  qed
  then have dl: "distinct (Suc (length pre) # map (rank_of ?po) ?ch)" using rox by simp
  have "sort (Suc (length pre) # map (rank_of ?po) ?ch) = [Suc (length p) ..< Suc (Suc (length pre))]"
  proof (rule sorted_distinct_set_unique)
    show "sorted (sort (Suc (length pre) # map (rank_of ?po) ?ch))" by (rule sorted_sort)
    show "distinct (sort (Suc (length pre) # map (rank_of ?po) ?ch))"
      using dl by (simp only: distinct_sort)
    show "sorted [Suc (length p) ..< Suc (Suc (length pre))]" by (rule sorted_upt)
    show "distinct [Suc (length p) ..< Suc (Suc (length pre))]" by (rule distinct_upt)
    show "set (sort (Suc (length pre) # map (rank_of ?po) ?ch)) = set [Suc (length p) ..< Suc (Suc (length pre))]"
      using st by (simp only: set_sort set_upt)
  qed
  then have "descendants_of (ranks ?po) ?D x = Inr [Suc (length p) ..< Suc (Suc (length pre))]"
    by (simp only: res)
  then show ?thesis
    by (intro exI[of _ p] exI[of _ seg] conjI) (rule ps, assumption)
qed

section \<open>Valid inputs\<close>

lemma wf_graph_succ:
  assumes "wf_graph G" and "y \<in> set (succs G x)"
  shows "x \<in> set (succs G y) \<and> y \<in> set (nx_nodes G) \<and> x \<in> set (nx_nodes G)"
proof -
  from assms(2) obtain l w where l: "map_of G x = Some l" "(y, w) \<in> set l"
    by (cases "map_of G x") (auto simp: succs_def adj_def)
  from l(1) have xl: "(x, l) \<in> set G" by (rule map_of_SomeD)
  with assms(1) l(2) have m: "map_of (adj G y) x = Some w" by (auto simp: wf_graph_def)
  then have "(x, w) \<in> set (adj G y)" by (rule map_of_SomeD)
  then have a: "x \<in> set (succs G y)" by (force simp: succs_def)
  from m have "map_of G y \<noteq> None" by (auto simp: adj_def split: option.splits)
  then have "y \<in> set (nx_nodes G)" by (auto simp: nx_nodes_def map_of_eq_None_iff)
  moreover from xl have "x \<in> set (nx_nodes G)" by (force simp: nx_nodes_def)
  ultimately show ?thesis using a by blast
qed

lemma wf_graph_symmetric: "wf_graph G \<Longrightarrow> symmetric_graph G"
  by (auto simp: symmetric_graph_def dest: wf_graph_succ)

lemma sym_edge_rel: "wf_graph G \<Longrightarrow> sym (edge_rel G)"
  by (auto simp: sym_def edge_rel_def dest: wf_graph_succ)

lemma reach_subset_nodes:
  assumes "wf_graph G" and "r \<in> set (nx_nodes G)"
  shows "set (reach G r) \<subseteq> set (nx_nodes G)"
proof
  fix y assume "y \<in> set (reach G r)"
  then have "(r, y) \<in> (edge_rel G)\<^sup>*" by (simp add: reach_eq_rtrancl)
  then show "y \<in> set (nx_nodes G)"
  proof (induction rule: rtrancl_induct)
    case base
    from assms(2) show ?case .
  next
    case (step y z)
    then show ?case using wf_graph_succ[OF assms(1), of z y] by (simp add: edge_rel_def)
  qed
qed

lemma connected_reach_all:
  assumes wf: "wf_graph G" and c: "nx_is_connected G = Inr True" and r: "r \<in> set (nx_nodes G)"
  shows "set (reach G r) = set (nx_nodes G)"
proof -
  from c obtain n l G' where G: "G = (n, l) # G'" and len: "length (reach G n) = length G"
    by (auto simp: nx_is_connected_def split: list.splits)
  have n: "n \<in> set (nx_nodes G)" using G by (simp add: nx_nodes_def)
  have dn: "distinct (nx_nodes G)" using wf by (simp add: wf_graph_def nx_nodes_def)
  have "card (set (reach G n)) = card (set (nx_nodes G))"
    using len distinct_card[OF distinct_reach, of G n] distinct_card[OF dn]
    by (simp add: nx_nodes_def)
  with reach_subset_nodes[OF wf n] have all: "set (reach G n) = set (nx_nodes G)"
    by (simp add: card_subset_eq)
  with r have "r \<in> (edge_rel G)\<^sup>* `` {n}" by (simp add: reach_eq_rtrancl)
  then have "(n, r) \<in> (edge_rel G)\<^sup>*" by blast
  with sym_rtrancl[OF sym_edge_rel[OF wf]] have rn: "(r, n) \<in> (edge_rel G)\<^sup>*"
    by (auto simp: sym_def)
  have "set (nx_nodes G) \<subseteq> set (reach G r)"
  proof
    fix y assume "y \<in> set (nx_nodes G)"
    with all have "y \<in> (edge_rel G)\<^sup>* `` {n}" by (simp add: reach_eq_rtrancl)
    then have "(n, y) \<in> (edge_rel G)\<^sup>*" by blast
    with rn have "(r, y) \<in> (edge_rel G)\<^sup>*" by (rule rtrancl_trans)
    then show "y \<in> set (reach G r)" by (simp add: reach_eq_rtrancl)
  qed
  with reach_subset_nodes[OF wf r] show ?thesis by blast
qed

lemma map_of_graph_node: "n \<in> set (nx_nodes G) \<Longrightarrow> \<exists>l. map_of G n = Some l"
  by (cases "map_of G n") (auto simp: nx_nodes_def map_of_eq_None_iff)

lemma ebind_Inr_simp: "ebind (Inr x) f = f x"
  by (simp add: ebind_def)

lemma postorder_tree_result:
  assumes wf: "wf_graph T" and conn: "nx_is_connected T = Inr True"
    and ord: "\<not> ordered s" and dir: "directed s = T"
    and root: "random_node r_idx s = Inr root" and rin: "root \<in> set (nx_nodes T)"
  shows "\<exists>de. postorder_tree r_idx s
             = Inr ((ranks (reach T root), de), s\<lparr>directed := pruned (reach T root) T\<rparr>)
           \<and> map fst de = reach T root
           \<and> (\<forall>pre x post. reach T root = pre @ x # post \<longrightarrow>
                (\<exists>p seg. pre = p @ seg
                   \<and> map_of de x = Some [Suc (length p) ..< Suc (Suc (length pre))]))"
proof -
  let ?po = "reach T root"
  let ?D = "pruned ?po T"
  let ?f = "\<lambda>each. ebind (descendants_of (ranks ?po) ?D each) (\<lambda>ds. Inr (each, ds))"
  let ?g = "\<lambda>each. (each, projr (descendants_of (ranks ?po) ?D each))"
  let ?de = "map ?g ?po"
  have d: "distinct ?po" by (rule distinct_reach)
  have cov: "set (nx_nodes T) = set ?po" using connected_reach_all[OF wf conn rin] by simp
  have sym: "symmetric_graph T" by (rule wf_graph_symmetric[OF wf])
  from map_of_graph_node[OF rin] have dfs: "nx_dfs_postorder_nodes T root = Inr ?po"
    by (auto simp: nx_dfs_postorder_nodes_def reach_def)
  have pl: "prune_loop ?po 0 [] T = Inr (ranks ?po, ?D)"
  proof (rule prune_loop_pruned[OF d])
    show "\<forall>n \<in> set ?po. map_of T n \<noteq> None"
      using cov map_of_graph_node[of _ T] by fastforce
    show "distinct (map fst T)" using wf by (simp add: wf_graph_def)
  qed
  have seg: "\<exists>p seg. pre = p @ seg \<and>
               descendants_of (ranks ?po) ?D x = Inr [Suc (length p) ..< Suc (Suc (length pre))]"
    if "?po = pre @ x # post" for pre x post
    by (rule descendants_of_segment[OF sym cov that])
  have fg: "\<forall>x \<in> set ?po. ?f x = Inr (?g x)"
  proof
    fix x assume "x \<in> set ?po"
    then obtain pre post where "?po = pre @ x # post" by (auto simp: in_set_conv_decomp)
    from seg[OF this] obtain ds where "descendants_of (ranks ?po) ?D x = Inr ds" by blast
    then show "?f x = Inr (?g x)" by (simp add: ebind_def)
  qed
  have em: "emap ?f ?po = Inr ?de" by (rule emap_all_Inr[OF fg])
  have pt: "postorder_tree r_idx s = Inr ((ranks ?po, ?de), s\<lparr>directed := ?D\<rparr>)"
    unfolding postorder_tree_def
    by (simp only: ord dir root dfs pl em map_fst_ranks ebind_Inr_simp if_True if_False
        not_False_eq_True case_prod_conv simp_thms)
  have mf: "map fst ?de = ?po" by (simp add: comp_def)
  have mo: "\<exists>p seg. pre = p @ seg \<and> map_of ?de x = Some [Suc (length p) ..< Suc (Suc (length pre))]"
    if po: "?po = pre @ x # post" for pre x post
  proof -
    from seg[OF po] obtain p sg where ps: "pre = p @ sg"
      and ds: "descendants_of (ranks ?po) ?D x = Inr [Suc (length p) ..< Suc (Suc (length pre))]"
      by blast
    have "x \<in> set ?po" using po by simp
    then have "map_of ?de x = Some (projr (descendants_of (ranks ?po) ?D x))"
      by (simp add: map_of_map_restrict)
    with ds have "map_of ?de x = Some [Suc (length p) ..< Suc (Suc (length pre))]"
      by (simp only: sum.sel)
    with ps show ?thesis by (intro exI[of _ p] exI[of _ sg] conjI)
  qed
  show ?thesis
    by (rule exI[of _ ?de], intro conjI allI impI) (rule pt, rule mf, erule mo)
qed

lemma construct_Inr:
  assumes "construct g t fixed restricted ord = Inr s"
  shows "s = \<lparr>graph = g, tree = t, fixed_edges = fixed, restricted_edges = restricted,
               ordered = ord, directed = [], postorder_nodes = [], descendants = [],
               quasi_cuts = []\<rparr>
         \<and> check_input_graph g = Inr () \<and> check_input_graph t = Inr ()
         \<and> (\<forall>e \<in> set (nx_edges t). nx_in_edges g e) \<and> nx_is_tree t = Inr True"
  using assms by (auto simp: construct_def ebind_Inr_iff check_input_tree_Inr_iff)

lemma check_input_graph_Inr:
  "check_input_graph G = Inr u \<Longrightarrow>
     nx_is_connected G = Inr True \<and> \<not> has_self_cycles G \<and> is_weighted G"
  by (auto simp: check_input_graph_def ebind_Inr_iff split: if_splits)

lemma upt_range_cases:
  assumes "lo \<le> r"
  shows "hd [lo ..< Suc r] = lo \<and> last [lo ..< Suc r] = r \<and> set [lo ..< Suc r] = {lo .. r}"
proof -
  have "[lo ..< Suc r] = lo # [Suc lo ..< Suc r]" using assms by (simp add: upt_conv_Cons)
  then have "hd [lo ..< Suc r] = lo" by simp
  moreover have "last [lo ..< Suc r] = r" using assms by simp
  moreover have "set [lo ..< Suc r] = {lo .. r}" by auto
  ultimately show ?thesis by blast
qed

lemma three_cases_exclusive:
  assumes "lo \<le> r" and "ds = [lo ..< Suc r]"
  shows "(rv < hd ds \<and> rv \<notin> set ds \<and> \<not> last ds < rv)
       \<or> (\<not> rv < hd ds \<and> rv \<in> set ds \<and> \<not> last ds < rv)
       \<or> (\<not> rv < hd ds \<and> rv \<notin> set ds \<and> last ds < rv)"
proof -
  from upt_range_cases[OF assms(1)] assms(2)
  have "hd ds = lo" "last ds = r" "set ds = {lo .. r}" by simp_all
  with assms(1) show ?thesis by (simp only: atLeastAtMost_iff) linarith
qed

lemma instantiate_result:
  assumes wf: "wf_graph T" and conn: "nx_is_connected T = Inr True"
    and ord: "\<not> ordered s" and tr: "tree s = T"
    and root: "random_node r_idx s = Inr root" and rin: "root \<in> set (nx_nodes T)"
  shows "\<exists>de. instantiate_substitute_variables r_idx s
             = Inr (s\<lparr>directed := pruned (reach T root) T, postorder_nodes := ranks (reach T root),
                      descendants := de, quasi_cuts := []\<rparr>)
           \<and> map fst de = reach T root
           \<and> (\<forall>pre x post. reach T root = pre @ x # post \<longrightarrow>
                (\<exists>p seg. pre = p @ seg
                   \<and> map_of de x = Some [Suc (length p) ..< Suc (Suc (length pre))]))"
proof -
  let ?s0 = "s\<lparr>directed := nx_to_directed (tree s)\<rparr>"
  have o0: "\<not> ordered ?s0" using ord by simp
  have d0: "directed ?s0 = T" using tr by (simp add: nx_to_directed_def)
  have r0: "random_node r_idx ?s0 = Inr root" using root by (simp add: random_node_def)
  from postorder_tree_result[OF wf conn o0 d0 r0 rin] obtain de where
    pt: "postorder_tree r_idx ?s0
           = Inr ((ranks (reach T root), de), ?s0\<lparr>directed := pruned (reach T root) T\<rparr>)"
    and mf: "map fst de = reach T root"
    and mo: "\<forall>pre x post. reach T root = pre @ x # post \<longrightarrow>
                (\<exists>p seg. pre = p @ seg
                   \<and> map_of de x = Some [Suc (length p) ..< Suc (Suc (length pre))])"
    by blast
  have "instantiate_substitute_variables r_idx s
          = Inr (s\<lparr>directed := pruned (reach T root) T, postorder_nodes := ranks (reach T root),
                   descendants := de, quasi_cuts := []\<rparr>)"
    unfolding instantiate_substitute_variables_def Let_def pt ebind_Inr_simp by simp
  with mf mo show ?thesis by (intro exI[of _ de] conjI)
qed

lemma valid_instantiate:
  assumes v: "valid_input g t" and c: "construct g t fixed restricted False = Inr s"
    and r: "r_idx < length (nx_nodes g)"
  shows "\<exists>de root. root \<in> set (nx_nodes t) \<and> instantiate_substitute_variables r_idx s
             = Inr (s\<lparr>directed := pruned (reach t root) t, postorder_nodes := ranks (reach t root),
                      descendants := de, quasi_cuts := []\<rparr>)
           \<and> map fst de = reach t root \<and> set (reach t root) = set (nx_nodes t)
           \<and> (\<forall>pre x post. reach t root = pre @ x # post \<longrightarrow>
                (\<exists>p seg. pre = p @ seg
                   \<and> map_of de x = Some [Suc (length p) ..< Suc (Suc (length pre))]))"
proof -
  from construct_Inr[OF c] have s: "graph s = g" "tree s = t" "\<not> ordered s"
    and ct: "check_input_graph t = Inr ()" by auto
  from check_input_graph_Inr[OF ct] have conn: "nx_is_connected t = Inr True" by simp
  from v have wf: "wf_graph t" and nodes: "set (nx_nodes t) = set (nx_nodes g)"
    by (simp_all add: valid_input_def)
  let ?root = "nx_nodes g ! r_idx"
  have rn: "random_node r_idx s = Inr ?root" using r s(1) by (auto simp: random_node_def Let_def)
  have rin: "?root \<in> set (nx_nodes t)" using r nodes by simp
  from instantiate_result[OF wf conn s(3) s(2) rn rin] obtain de where
    "instantiate_substitute_variables r_idx s
             = Inr (s\<lparr>directed := pruned (reach t ?root) t, postorder_nodes := ranks (reach t ?root),
                      descendants := de, quasi_cuts := []\<rparr>)"
    "map fst de = reach t ?root"
    "\<forall>pre x post. reach t ?root = pre @ x # post \<longrightarrow>
                (\<exists>p seg. pre = p @ seg
                   \<and> map_of de x = Some [Suc (length p) ..< Suc (Suc (length pre))])"
    by blast
  with rin connected_reach_all[OF wf conn rin] show ?thesis
    by (intro exI[of _ de] exI[of _ ?root] conjI)
qed

text \<open>
  C6: for valid inputs and the traversal from the chosen root (\<open>ordered = False\<close>),
  \<open>instantiate_substitute_variables\<close> returns; every node of the tree has a position
  and a descendant list; the list of a node with position \<open>r\<close> is the range \<open>lo, ..., r\<close>
  for some \<open>1 \<le> lo \<le> r\<close>, so that its maximum is the node's own position; and for
  every position \<open>rv\<close> exactly one of the three tests of step 2.1 holds: below the first
  element, in the list, above the last element.
\<close>

theorem descendants_contiguous:
  assumes v: "valid_input g t" and c: "construct g t fixed restricted False = Inr s"
    and r: "r_idx < length (nx_nodes g)"
  shows "\<exists>s1. instantiate_substitute_variables r_idx s = Inr s1
           \<and> map fst (descendants s1) = map fst (postorder_nodes s1)
           \<and> set (map fst (postorder_nodes s1)) = set (nx_nodes t)
           \<and> (\<forall>x ds. (x, ds) \<in> set (descendants s1) \<longrightarrow>
                 (\<exists>lo r. dict_get (postorder_nodes s1) x = Inr r \<and> 1 \<le> lo \<and> lo \<le> r
                         \<and> ds = [lo ..< Suc r])
                 \<and> (\<forall>rv. (rv < hd ds \<and> rv \<notin> set ds \<and> \<not> last ds < rv)
                        \<or> (\<not> rv < hd ds \<and> rv \<in> set ds \<and> \<not> last ds < rv)
                        \<or> (\<not> rv < hd ds \<and> rv \<notin> set ds \<and> last ds < rv)))"
proof -
  from valid_instantiate[OF v c r] obtain de root where
    i: "instantiate_substitute_variables r_idx s
             = Inr (s\<lparr>directed := pruned (reach t root) t, postorder_nodes := ranks (reach t root),
                      descendants := de, quasi_cuts := []\<rparr>)"
    and mf: "map fst de = reach t root" and cov: "set (reach t root) = set (nx_nodes t)"
    and mo: "\<forall>pre x post. reach t root = pre @ x # post \<longrightarrow>
                (\<exists>p seg. pre = p @ seg
                   \<and> map_of de x = Some [Suc (length p) ..< Suc (Suc (length pre))])"
    by blast
  let ?po = "reach t root"
  let ?s1 = "s\<lparr>directed := pruned ?po t, postorder_nodes := ranks ?po,
                descendants := de, quasi_cuts := []\<rparr>"
  have d: "distinct ?po" by (rule distinct_reach)
  have each: "(\<exists>lo r. dict_get (ranks ?po) x = Inr r \<and> 1 \<le> lo \<and> lo \<le> r \<and> ds = [lo ..< Suc r])
            \<and> (\<forall>rv. (rv < hd ds \<and> rv \<notin> set ds \<and> \<not> last ds < rv)
                        \<or> (\<not> rv < hd ds \<and> rv \<in> set ds \<and> \<not> last ds < rv)
                        \<or> (\<not> rv < hd ds \<and> rv \<notin> set ds \<and> last ds < rv))"
    if xd: "(x, ds) \<in> set de" for x ds
  proof -
    from xd mf have "x \<in> set ?po" by (metis fst_conv image_eqI set_map)
    then obtain pre post where po: "?po = pre @ x # post" by (auto simp: in_set_conv_decomp)
    from mo po obtain p seg where ps: "pre = p @ seg"
      and m: "map_of de x = Some [Suc (length p) ..< Suc (Suc (length pre))]" by blast
    have "distinct (map fst de)" using mf d by simp
    from map_of_is_SomeI[OF this xd] m have ds: "ds = [Suc (length p) ..< Suc (Suc (length pre))]"
      by simp
    have rk: "dict_get (ranks ?po) x = Inr (Suc (length pre))"
      using rank_split[OF d po] by (simp add: dict_get_def)
    have le: "Suc (length p) \<le> Suc (length pre)" using ps by simp
    have a: "\<exists>lo r. dict_get (ranks ?po) x = Inr r \<and> 1 \<le> lo \<and> lo \<le> r \<and> ds = [lo ..< Suc r]"
      by (rule exI[of _ "Suc (length p)"], rule exI[of _ "Suc (length pre)"]) (use rk le ds in simp)
    have b: "(rv < hd ds \<and> rv \<notin> set ds \<and> \<not> last ds < rv)
                        \<or> (\<not> rv < hd ds \<and> rv \<in> set ds \<and> \<not> last ds < rv)
                        \<or> (\<not> rv < hd ds \<and> rv \<notin> set ds \<and> last ds < rv)" for rv
      by (rule three_cases_exclusive[OF le ds])
    from a b show ?thesis by blast
  qed
  have k: "map fst (descendants ?s1) = map fst (postorder_nodes ?s1)"
    using mf by (simp add: map_fst_ranks)
  have n: "set (map fst (postorder_nodes ?s1)) = set (nx_nodes t)"
    using cov by (simp add: map_fst_ranks)
  show ?thesis
    by (rule exI[of _ ?s1], intro conjI allI impI)
       (rule i, rule k, rule n, use each in simp, use each in simp)
qed


theorem descendants_contiguous_witness:
  "valid_input path4_graph path4_tree
   \<and> instantiate_substitute_variables 0 path4_obj = Inr path4_ready
   \<and> map fst (descendants path4_ready) = map fst (postorder_nodes path4_ready)
   \<and> descendants path4_ready = [(4, [1]), (3, [1, 2]), (2, [1, 2, 3]), (1, [1, 2, 3, 4])]"
proof -
  have v: "valid_input path4_graph path4_tree" by code_simp
  have r: "0 < length (nx_nodes path4_graph)" by code_simp
  from descendants_contiguous[OF v construct_path4 r] obtain s1 where
    i: "instantiate_substitute_variables 0 path4_obj = Inr s1"
    and m: "map fst (descendants s1) = map fst (postorder_nodes s1)" by blast
  from i instantiate_path4 have e: "s1 = path4_ready" by simp
  have d: "descendants path4_ready = [(4, [1]), (3, [1, 2]), (2, [1, 2, 3]), (1, [1, 2, 3, 4])]"
    by (simp add: path4_ready_def)
  from v instantiate_path4 m[unfolded e] d show ?thesis by (intro conjI)
qed

end
